theory Spec2Isabelle
  imports Complex_Main "HOL-Library.AList"
begin

section \<open>The fire meta-ball particle system\<close>

text \<open>
  A shallow embedding of \<^verbatim>\<open>FireMetaBallParticle\<close> and \<^verbatim>\<open>FireMetaBallSystem\<close>.

  Conventions of the embedding.
  \<^item> A JavaScript \<^verbatim>\<open>number\<close> is modelled as an exact \<^typ>\<open>real\<close>; rounding, NaN and
    infinities of IEEE doubles are not modelled. Every concrete input used below is
    chosen so that the comparisons it decides hold with a wide margin.
  \<^item> Particles are mutable objects shared between the particle array, the sprite map
    and the groups. They live in an explicit store \<open>heap\<close>. The only constructor
    assigns the read-only field \<^verbatim>\<open>id\<close> from the static counter \<^verbatim>\<open>nextId++\<close>, so an
    object and its id determine each other: a particle reference is its id, and the
    store is indexed by it.
  \<^item> Sprites are objects of the rendering library. They live in a store \<open>sprites\<close>
    indexed by a handle allocated from \<open>nextSprite\<close>. The field \<open>s_parent\<close> tells
    whether the sprite is a child of the system's container.
  \<^item> \<^verbatim>\<open>Math.random()\<close> reads the next element of a stream \<open>rnd\<close>; the state field
    \<open>rng\<close> is the position in the stream.
  \<^item> A JavaScript \<^verbatim>\<open>Map\<close> is an association list in insertion order.
\<close>

subsection \<open>Particles\<close>

type_synonym pref = nat

record particle =
  p_x :: real
  p_y :: real
  p_vx :: real
  p_vy :: real
  p_life :: real
  p_maxLife :: real
  p_active :: bool
  p_merged :: bool

text \<open>The constructor; it draws three random numbers. The id is the reference under
  which the caller stores the result.\<close>

definition newParticle :: "(nat \<Rightarrow> real) \<Rightarrow> nat \<Rightarrow> real \<Rightarrow> real \<Rightarrow> particle \<times> nat" where
  "newParticle rnd i x y =
     (let angle = ((270 + (rnd i - 0.5) * 30) * pi) / 180;
          speed = 50 + rnd (i + 1) * 50;
          maxLife = 2.0 + rnd (i + 2) * 2.0
      in (\<lparr>p_x = x, p_y = y, p_vx = cos angle * speed, p_vy = sin angle * speed,
           p_life = maxLife, p_maxLife = maxLife, p_active = True, p_merged = False\<rparr>,
          i + 3))"

definition Particle_update :: "(nat \<Rightarrow> real) \<Rightarrow> nat \<Rightarrow> real \<Rightarrow> particle \<Rightarrow> particle \<times> nat" where
  "Particle_update rnd i dt p =
     (if \<not> p_active p then (p, i)
      else
        let x' = p_x p + p_vx p * dt;
            y' = p_y p + p_vy p * dt;
            vy1 = p_vy p - 20 * dt;
            vx2 = p_vx p + (rnd i - 0.5) * 10 * dt;
            vy2 = vy1 + (rnd (i + 1) - 0.5) * 5 * dt;
            vx3 = vx2 * 0.995;
            vy3 = vy2 * 0.995;
            life' = p_life p - dt
        in (p\<lparr>p_x := x', p_y := y', p_vx := vx3, p_vy := vy3, p_life := life',
               p_active := \<not> (life' \<le> 0)\<rparr>,
            i + 2))"

definition getAlpha :: "particle \<Rightarrow> real" where
  "getAlpha p =
     (if \<not> p_active p then 0
      else let a = p_life p * 2 in if a < 1 then a else 1)"

subsection \<open>Sprites, groups and the system\<close>

text \<open>A texture name such as \<^verbatim>\<open>merge_h2_close_3\<close> is kept in its parts: the prefix,
  the configuration (\<open>None\<close> when the table lookup gave \<^verbatim>\<open>undefined\<close>) and the
  variation number.\<close>

type_synonym texture = "string \<times> string option \<times> int"

record sprite =
  s_texture :: texture
  s_anchor :: real
  s_x :: real
  s_y :: real
  s_rotation :: real
  s_alpha :: real
  s_blendMode :: nat
  s_scaleX :: real
  s_scaleY :: real
  s_visible :: bool
  s_parent :: bool

text \<open>\<^verbatim>\<open>new Sprite(texture)\<close>: visible, not yet attached.\<close>

definition newSprite :: "texture \<Rightarrow> sprite" where
  "newSprite tex =
     \<lparr>s_texture = tex, s_anchor = 0, s_x = 0, s_y = 0, s_rotation = 0, s_alpha = 1,
      s_blendMode = 0, s_scaleX = 1, s_scaleY = 1, s_visible = True, s_parent = False\<rparr>"

text \<open>The key of a group is the string of its sorted ids joined by commas. The join of
  decimal numerals is injective on id lists, so the key is modelled as the sorted list.\<close>

type_synonym gkey = "nat list"

record pgroup =
  g_key :: gkey
  g_particles :: "pref list"
  g_sprite :: nat
  g_anchor :: pref

record system =
  maxSprites :: real
  emitterWidth :: real
  emitterHeight :: real
  baseMergeDistance :: real
  spawnTimer :: real
  spawnInterval :: real
  particles :: "pref list"
  singleSprites :: "(pref \<times> nat) list"
  groups :: "(gkey \<times> pgroup) list"
  heap :: "pref \<Rightarrow> particle"
  sprites :: "nat \<Rightarrow> sprite"
  nextId :: nat
  nextSprite :: nat
  rng :: nat

definition scaleAtY :: "real \<Rightarrow> real \<Rightarrow> real" where
  "scaleAtY H y = (let t = max 0 (min 1 (y / H)) in 0.12 + t * 2)"

subsection \<open>Clustering\<close>

type_synonym buckets = "((int \<times> int) \<times> pref list) list"

definition keyOf :: "real \<Rightarrow> real \<Rightarrow> real \<Rightarrow> int \<times> int" where
  "keyOf cell x y = (\<lfloor>x / cell\<rfloor>, \<lfloor>y / cell\<rfloor>)"

definition addToBucket :: "real \<Rightarrow> (pref \<Rightarrow> particle) \<Rightarrow> buckets \<Rightarrow> pref \<Rightarrow> buckets" where
  "addToBucket cell hp bk p =
     (let k = keyOf cell (p_x (hp p)) (p_y (hp p))
      in case map_of bk k of
           None \<Rightarrow> bk @ [(k, [p])]
         | Some l \<Rightarrow> AList.update k (l @ [p]) bk)"

definition buildBuckets :: "real \<Rightarrow> (pref \<Rightarrow> particle) \<Rightarrow> pref list \<Rightarrow> buckets" where
  "buildBuckets cell hp ps = foldl (addToBucket cell hp) [] ps"

definition candidates :: "real \<Rightarrow> buckets \<Rightarrow> real \<Rightarrow> real \<Rightarrow> pref list" where
  "candidates cell bk px py =
     (let cx = \<lfloor>px / cell\<rfloor>; cy = \<lfloor>py / cell\<rfloor>
      in concat (map (\<lambda>oy. concat (map (\<lambda>ox.
           case map_of bk (cx + ox, cy + oy) of None \<Rightarrow> [] | Some l \<Rightarrow> l)
           [-1, 0, 1])) [-1, 0, 1]))"

text \<open>The two rejection tests of the inner loop, as the source writes them
  (each is the condition of a \<^verbatim>\<open>continue\<close>).\<close>

definition pairFar :: "real \<Rightarrow> (pref \<Rightarrow> particle) \<Rightarrow> real \<Rightarrow> pref \<Rightarrow> pref \<Rightarrow> bool" where
  "pairFar H hp threshold cur nb =
     (let dx = p_x (hp cur) - p_x (hp nb);
          dy = p_y (hp cur) - p_y (hp nb);
          d2 = dx * dx + dy * dy;
          pairScale = max (scaleAtY H (p_y (hp cur))) (scaleAtY H (p_y (hp nb)));
          pairThr = threshold * pairScale;
          pairThr2 = pairThr * pairThr
      in d2 > pairThr2)"

definition COHESION :: real where
  "COHESION = 1.0"

definition cohesionFar :: "real \<Rightarrow> (pref \<Rightarrow> particle) \<Rightarrow> real \<Rightarrow> real \<Rightarrow> real \<Rightarrow> pref \<Rightarrow> bool" where
  "cohesionFar H hp threshold cx cy nb =
     (let cxScale = scaleAtY H cy;
          bottomBias = 1 + (cy / H) * 0.8;
          cohThr = threshold * COHESION * cxScale * bottomBias;
          dcx = p_x (hp nb) - cx;
          dcy = p_y (hp nb) - cy
      in dcx * dcx + dcy * dcy > cohThr * cohThr)"

text \<open>The variables of one run of \<^verbatim>\<open>clusterParticles\<close> that the inner loops change.\<close>

record comp_state =
  c_visited :: "nat set"
  c_comp :: "pref list"
  c_sumX :: real
  c_sumY :: real
  c_count :: nat
  c_cx :: real
  c_cy :: real

text \<open>The body of \<^verbatim>\<open>for (const nb of candidates(cur.x, cur.y))\<close>. The stack is a list
  whose head is its top.\<close>

definition admit ::
  "real \<Rightarrow> (pref \<Rightarrow> particle) \<Rightarrow> real \<Rightarrow> pref \<Rightarrow> pref \<Rightarrow> comp_state \<times> pref list
     \<Rightarrow> comp_state \<times> pref list" where
  "admit H hp threshold cur nb st =
     (let a = fst st; stack = snd st in
      if nb \<in> c_visited a \<or> nb = cur then st
      else if pairFar H hp threshold cur nb then st
      else if cohesionFar H hp threshold (c_cx a) (c_cy a) nb then st
      else
        let sumX = c_sumX a + p_x (hp nb);
            sumY = c_sumY a + p_y (hp nb);
            count = c_count a + 1
        in (a\<lparr>c_visited := insert nb (c_visited a), c_comp := c_comp a @ [nb],
               c_sumX := sumX, c_sumY := sumY, c_count := count,
               c_cx := sumX / real count, c_cy := sumY / real count\<rparr>,
            nb # stack))"

definition scan ::
  "real \<Rightarrow> (pref \<Rightarrow> particle) \<Rightarrow> real \<Rightarrow> buckets \<Rightarrow> pref \<Rightarrow> comp_state \<times> pref list
     \<Rightarrow> comp_state \<times> pref list" where
  "scan H hp threshold bk cur st =
     fold (admit H hp threshold cur)
       (candidates threshold bk (p_x (hp cur)) (p_y (hp cur))) st"

definition unvisited :: "buckets \<Rightarrow> comp_state \<Rightarrow> nat" where
  "unvisited bk a = length (filter (\<lambda>p. p \<notin> c_visited a) (concat (map snd bk)))"

lemma bucket_lookup_subset:
  "set (case map_of bk k of None \<Rightarrow> [] | Some l \<Rightarrow> l) \<subseteq> set (concat (map snd bk))"
proof (cases "map_of bk k")
  case None
  then show ?thesis by simp
next
  case (Some l)
  from map_of_SomeD [OF this] have "l \<in> snd ` set bk" by force
  with Some show ?thesis by auto
qed

lemma candidates_subset: "set (candidates cell bk px py) \<subseteq> set (concat (map snd bk))"
proof
  fix p
  assume "p \<in> set (candidates cell bk px py)"
  then obtain k where "p \<in> set (case map_of bk k of None \<Rightarrow> [] | Some l \<Rightarrow> l)"
    unfolding candidates_def Let_def by auto
  with bucket_lookup_subset [of bk k] show "p \<in> set (concat (map snd bk))" by blast
qed

lemma filter_insert_less:
  assumes "nb \<in> set xs" "nb \<notin> V"
  shows "length (filter (\<lambda>p. p \<notin> insert nb V) xs) < length (filter (\<lambda>p. p \<notin> V) xs)"
  using assms
proof (induction xs)
  case Nil
  then show ?case by simp
next
  case (Cons x xs)
  have le: "length (filter (\<lambda>p. p \<notin> insert nb V) xs) \<le> length (filter (\<lambda>p. p \<notin> V) xs)"
    by (induction xs) auto
  show ?case
  proof (cases "x = nb")
    case True
    with Cons.prems le show ?thesis by (simp add: less_Suc_eq_le)
  next
    case False
    with Cons show ?thesis by auto
  qed
qed

lemma admit_measure:
  assumes "nb \<in> set (concat (map snd bk))"
  shows "2 * unvisited bk (fst (admit H hp t cur nb st)) + length (snd (admit H hp t cur nb st))
           \<le> 2 * unvisited bk (fst st) + length (snd st)"
proof (cases "admit H hp t cur nb st = st")
  case True
  then show ?thesis by simp
next
  case False
  then have nv: "nb \<notin> c_visited (fst st)"
    by (auto simp: admit_def Let_def split: if_splits)
  from False have eq: "c_visited (fst (admit H hp t cur nb st)) = insert nb (c_visited (fst st))"
      and st: "snd (admit H hp t cur nb st) = nb # snd st"
    by (auto simp: admit_def Let_def split: if_splits)
  have "unvisited bk (fst (admit H hp t cur nb st)) < unvisited bk (fst st)"
    unfolding unvisited_def eq using filter_insert_less [OF assms nv] .
  with st show ?thesis by simp
qed

lemma fold_admit_measure:
  assumes "set cs \<subseteq> set (concat (map snd bk))"
  shows "2 * unvisited bk (fst (fold (admit H hp t cur) cs st))
           + length (snd (fold (admit H hp t cur) cs st))
           \<le> 2 * unvisited bk (fst st) + length (snd st)"
  using assms
proof (induction cs arbitrary: st)
  case Nil
  then show ?case by simp
next
  case (Cons c cs)
  have "c \<in> set (concat (map snd bk))" using Cons.prems by auto
  from admit_measure [OF this, of H hp t cur st] Cons.IH [of "admit H hp t cur c st"] Cons.prems
  show ?case by simp
qed

lemma scan_measure:
  "2 * unvisited bk (fst (scan H hp t bk cur st)) + length (snd (scan H hp t bk cur st))
     \<le> 2 * unvisited bk (fst st) + length (snd st)"
  unfolding scan_def by (rule fold_admit_measure [OF candidates_subset])

text \<open>The loop \<^verbatim>\<open>while (stack.length > 0)\<close>. It terminates: every push marks a
  particle of the buckets as visited, and every iteration pops.\<close>

function growLoop ::
  "real \<Rightarrow> (pref \<Rightarrow> particle) \<Rightarrow> real \<Rightarrow> buckets \<Rightarrow> comp_state \<Rightarrow> pref list \<Rightarrow> comp_state" where
  "growLoop H hp threshold bk a [] = a"
| "growLoop H hp threshold bk a (cur # stack) =
     growLoop H hp threshold bk
       (fst (scan H hp threshold bk cur (a, stack)))
       (snd (scan H hp threshold bk cur (a, stack)))"
  by pat_completeness auto
termination
proof (relation "measure (\<lambda>(H, hp, t, bk, a, stack). 2 * unvisited bk a + length stack)")
  show "wf (measure (\<lambda>(H, hp, t, bk, a, stack). 2 * unvisited bk a + length stack))"
    by simp
next
  fix H hp threshold bk a cur stack
  show "((H, hp, threshold, bk, fst (scan H hp threshold bk cur (a, stack)),
          snd (scan H hp threshold bk cur (a, stack))),
         (H, hp, threshold, bk, a, cur # stack))
        \<in> measure (\<lambda>(H, hp, t, bk, a, stack). 2 * unvisited bk a + length stack)"
    using scan_measure [of bk H hp threshold cur "(a, stack)"] by (simp add: case_prod_unfold)
qed

text \<open>The body of \<^verbatim>\<open>for (const seed of particles)\<close>, on the pair of the visited set and
  the clusters found so far.\<close>

definition seedStep ::
  "real \<Rightarrow> (pref \<Rightarrow> particle) \<Rightarrow> real \<Rightarrow> buckets \<Rightarrow> pref \<Rightarrow> nat set \<times> pref list list
     \<Rightarrow> nat set \<times> pref list list" where
  "seedStep H hp threshold bk seed st =
     (if seed \<in> fst st then st
      else
        let a0 = \<lparr>c_visited = insert seed (fst st), c_comp = [seed],
                  c_sumX = p_x (hp seed), c_sumY = p_y (hp seed), c_count = 1,
                  c_cx = p_x (hp seed), c_cy = p_y (hp seed)\<rparr>;
            a = growLoop H hp threshold bk a0 [seed]
        in (c_visited a, snd st @ [c_comp a]))"

definition clusterParticles ::
  "real \<Rightarrow> (pref \<Rightarrow> particle) \<Rightarrow> pref list \<Rightarrow> real \<Rightarrow> pref list list" where
  "clusterParticles H hp ps threshold =
     snd (fold (seedStep H hp threshold (buildBuckets threshold hp ps)) ps ({}, []))"

subsection \<open>Budget fitting\<close>

definition multipliers :: "real list" where
  "multipliers = [1, 1.12, 1.4, 1.8, 2, 2.2]"

text \<open>The loop \<^verbatim>\<open>for (const m of multipliers)\<close> with its \<^verbatim>\<open>break\<close>; \<open>cp m\<close> is the
  clustering at multiplier \<open>m\<close>.\<close>

fun fitLoop :: "(real \<Rightarrow> pref list list) \<Rightarrow> real \<Rightarrow> real list \<Rightarrow> pref list list \<Rightarrow> pref list list" where
  "fitLoop cp maxS [] chosen = chosen"
| "fitLoop cp maxS (m # ms) chosen =
     (let clusters = cp m
      in if real (length clusters) \<le> maxS then clusters else fitLoop cp maxS ms clusters)"

definition clusterAt :: "system \<Rightarrow> pref list \<Rightarrow> real \<Rightarrow> pref list list" where
  "clusterAt s actives m =
     clusterParticles (emitterHeight s) (heap s) actives (baseMergeDistance s * m)"

definition clusterToFitBudget :: "system \<Rightarrow> pref list list" where
  "clusterToFitBudget s =
     (let actives = filter (\<lambda>p. p_active (heap s p)) (particles s)
      in if length actives = 0 then []
         else fitLoop (clusterAt s actives) (maxSprites s) multipliers [])"

subsection \<open>Anchors, keys and textures\<close>

text \<open>The running \<^verbatim>\<open>bestScore\<close> starts at \<^verbatim>\<open>-Infinity\<close>, here \<open>None\<close>.\<close>

definition anchorStep ::
  "real \<Rightarrow> (pref \<Rightarrow> particle) \<Rightarrow> pref \<Rightarrow> pref \<times> real option \<Rightarrow> pref \<times> real option" where
  "anchorStep H hp p st =
     (let yNorm = max 0 (min 1 (p_y (hp p) / H));
          score = yNorm * 0.65 + getAlpha (hp p) * 0.35
      in if (case snd st of None \<Rightarrow> True | Some b \<Rightarrow> score > b) then (p, Some score) else st)"

text \<open>\<^verbatim>\<open>comp[0]!\<close> is \<^verbatim>\<open>undefined\<close> for an empty array, and so is the result then:
  \<open>None\<close>.\<close>

definition pickAnchor :: "real \<Rightarrow> (pref \<Rightarrow> particle) \<Rightarrow> pref list \<Rightarrow> pref option" where
  "pickAnchor H hp cmp =
     (case cmp of
        [] \<Rightarrow> None
      | p0 # _ \<Rightarrow> Some (fst (fold (anchorStep H hp) cmp (p0, None))))"

definition keyFor :: "pref list \<Rightarrow> gkey" where
  "keyFor cmp = sort cmp"

text \<open>\<^verbatim>\<open>xs[Math.floor(r * xs.length)]\<close>, \<^verbatim>\<open>undefined\<close> out of range.\<close>

definition pickIndex :: "'a list \<Rightarrow> real \<Rightarrow> 'a option" where
  "pickIndex xs r =
     (let i = \<lfloor>r * real (length xs)\<rfloor>
      in if 0 \<le> i \<and> i < int (length xs) then Some (xs ! nat i) else None)"

definition sizes :: "string list" where
  "sizes = [''xs'', ''s'', ''m'', ''l'', ''xl'', ''xxl'']"

definition pickSingle :: "(nat \<Rightarrow> real) \<Rightarrow> nat \<Rightarrow> texture \<times> nat" where
  "pickSingle rnd i = ((''single'', pickIndex sizes (rnd i), 1 + \<lfloor>rnd (i + 1) * 6\<rfloor>), i + 2)"

definition atan2 :: "real \<Rightarrow> real \<Rightarrow> real" where
  "atan2 y x =
     (if 0 < x then arctan (y / x)
      else if x < 0 \<and> 0 \<le> y then arctan (y / x) + pi
      else if x < 0 \<and> y < 0 then arctan (y / x) - pi
      else if 0 < y then pi / 2
      else if y < 0 then - pi / 2
      else 0)"

definition byDistance :: "real \<Rightarrow> string \<Rightarrow> string \<Rightarrow> string \<Rightarrow> string" where
  "byDistance distance close mid far =
     (if distance < 15 then close else if distance < 30 then mid else far)"

definition configs3 :: "string list" where
  "configs3 = [''tri3_eq'', ''tri3_iso'', ''tri3_right'', ''tri3_acute'', ''lin3_h_close'',
     ''lin3_h_far'', ''lin3_v_close'', ''lin3_v_far'', ''lin3_diag'', ''lin3_antidiag'',
     ''l3_ne'', ''l3_nw'', ''l3_se'', ''l3_sw'', ''arc3_top'', ''arc3_bottom'', ''arc3_left'',
     ''arc3_right'', ''v3_up'', ''v3_down'', ''v3_left'', ''v3_right'']"

definition configs4 :: "string list" where
  "configs4 = [''cross4'', ''plus4'', ''cross4_diag'', ''square4'', ''rect4_h'', ''rect4_v'',
     ''diamond4'', ''line4_h'', ''line4_v'', ''line4_diag'', ''t4_up'', ''t4_down'',
     ''t4_left'', ''t4_right'']"

definition scatterConfigs :: "string list" where
  "scatterConfigs = [''scatter3'', ''scatter4'', ''scatter5'', ''scatter6'', ''scatter7'',
     ''scatter8'', ''scatter9'', ''scatter10'']"

definition asymConfigs :: "string list" where
  "asymConfigs = [''tear_up'', ''tear_down'', ''tear_left'', ''tear_right'', ''comet_ne'',
     ''comet_nw'', ''comet_se'', ''comet_sw'', ''flame_tall'', ''flame_wide'', ''flame_left'',
     ''flame_right'', ''wave_h'', ''wave_v'', ''wave_s'']"

text \<open>The branch \<^verbatim>\<open>count === 2\<close> of \<^verbatim>\<open>pickMergeTexture\<close>.\<close>

definition pickPairTexture ::
  "(nat \<Rightarrow> real) \<Rightarrow> nat \<Rightarrow> particle \<Rightarrow> particle \<Rightarrow> texture \<times> nat" where
  "pickPairTexture rnd i p1 p2 =
     (let dx = \<bar>p_x p1 - p_x p2\<bar>;
          dy = \<bar>p_y p1 - p_y p2\<bar>;
          distance = sqrt (dx * dx + dy * dy);
          cfg =
            (if dx > dy * 1.8 then (byDistance distance ''h2_close'' ''h2_mid'' ''h2_far'', i)
             else if dy > dx * 1.8 then (byDistance distance ''v2_close'' ''v2_mid'' ''v2_far'', i)
             else
               let angle = (atan2 (p_y p2 - p_y p1) (p_x p2 - p_x p1) * 180) / pi;
                   a360 = angle + 360;
                   normalizedAngle = a360 - 360 * real_of_int \<lfloor>a360 / 360\<rfloor>;
                   c1 =
                     (if normalizedAngle \<ge> 315 \<or> normalizedAngle < 45
                        then (if rnd i < 0.7 then ''a2_30'' else ''a2_150'')
                      else if normalizedAngle \<ge> 45 \<and> normalizedAngle < 135
                        then (if rnd i < 0.5 then ''d2_ne'' else ''d2_se'')
                      else if normalizedAngle \<ge> 135 \<and> normalizedAngle < 225
                        then (if rnd i < 0.7 then ''a2_60'' else ''a2_120'')
                      else (if rnd i < 0.5 then ''d2_nw'' else ''d2_sw''))
               in if distance < 8
                    then (if rnd (i + 1) < 0.6 then ''o2_heavy'' else ''o2_slight'', i + 2)
                  else if distance < 12
                    then (if rnd (i + 1) < 0.3 then ''o2_slight'' else c1, i + 2)
                  else (c1, i + 1))
      in ((''merge'', Some (fst cfg), 1 + \<lfloor>rnd (snd cfg) * 4\<rfloor>), snd cfg + 1))"

definition pickFrom :: "(nat \<Rightarrow> real) \<Rightarrow> nat \<Rightarrow> string list \<Rightarrow> texture \<times> nat" where
  "pickFrom rnd i configs =
     ((''merge'', pickIndex configs (rnd i), 1 + \<lfloor>rnd (i + 1) * 4\<rfloor>), i + 2)"

definition pickMergeTexture ::
  "(nat \<Rightarrow> real) \<Rightarrow> nat \<Rightarrow> (pref \<Rightarrow> particle) \<Rightarrow> pref list \<Rightarrow> texture \<times> nat" where
  "pickMergeTexture rnd i hp ps =
     (let count = length ps in
      if count = 2 then pickPairTexture rnd i (hp (ps ! 0)) (hp (ps ! 1))
      else if count = 3 then pickFrom rnd i configs3
      else if count = 4 then pickFrom rnd i configs4
      else if count = 5 then pickFrom rnd i [''cluster5'', ''star5'', ''x5'']
      else if count = 6 then pickFrom rnd i [''hex6'', ''flower6'', ''grid6'']
      else if count \<ge> 7 then pickFrom rnd i [''circle7'', ''burst8'']
      else if rnd i < 0.3
        then (([], pickIndex scatterConfigs (rnd (i + 1)), 1 + \<lfloor>rnd (i + 2) * 5\<rfloor>), i + 3)
      else if rnd (i + 1) < 0.2
        then ((''asym'', pickIndex asymConfigs (rnd (i + 2)), 1 + \<lfloor>rnd (i + 3) * 3\<rfloor>), i + 4)
      else pickSingle rnd (i + 2))"

subsection \<open>The container\<close>

definition addChild :: "nat \<Rightarrow> (nat \<Rightarrow> sprite) \<Rightarrow> (nat \<Rightarrow> sprite)" where
  "addChild h spr = spr(h := (spr h)\<lparr>s_parent := True\<rparr>)"

definition removeChild :: "nat \<Rightarrow> (nat \<Rightarrow> sprite) \<Rightarrow> (nat \<Rightarrow> sprite)" where
  "removeChild h spr = spr(h := (spr h)\<lparr>s_parent := False\<rparr>)"

subsection \<open>Culling\<close>

text \<open>One iteration of the loop of \<^verbatim>\<open>cullDeadParticles\<close>, at index \<open>i\<close>.\<close>

definition cullAt :: "nat \<Rightarrow> system \<Rightarrow> system" where
  "cullAt i s =
     (if i \<ge> length (particles s) then s
      else
        let p = particles s ! i in
        if p_active (heap s p) then s
        else
          s\<lparr>sprites :=
              (case map_of (singleSprites s) p of
                 Some h \<Rightarrow> if s_parent (sprites s h) then removeChild h (sprites s) else sprites s
               | None \<Rightarrow> sprites s),
            singleSprites := AList.delete p (singleSprites s),
            particles := take i (particles s) @ drop (Suc i) (particles s)\<rparr>)"

text \<open>\<open>cullLoop n\<close> runs the iterations \<open>i = n - 1, \<dots>, 0\<close>.\<close>

fun cullLoop :: "nat \<Rightarrow> system \<Rightarrow> system" where
  "cullLoop 0 s = s"
| "cullLoop (Suc i) s = cullLoop i (cullAt i s)"

definition cullDeadParticles :: "system \<Rightarrow> system" where
  "cullDeadParticles s = cullLoop (length (particles s)) s"

subsection \<open>Reconciling the visuals\<close>

definition resetMerged :: "system \<Rightarrow> system" where
  "resetMerged s =
     s\<lparr>heap := fold (\<lambda>p hp. hp(p := (hp p)\<lparr>p_merged := False\<rparr>)) (particles s) (heap s)\<rparr>"

text \<open>The body of \<^verbatim>\<open>for (const p of comp)\<close>: flag the member, hide its single sprite.\<close>

definition markMerged :: "pref \<Rightarrow> system \<Rightarrow> system" where
  "markMerged p s =
     s\<lparr>heap := (heap s)(p := (heap s p)\<lparr>p_merged := True\<rparr>),
       sprites :=
         (case map_of (singleSprites s) p of
            Some h \<Rightarrow> (sprites s)(h := (sprites s h)\<lparr>s_visible := False\<rparr>)
          | None \<Rightarrow> sprites s)\<rparr>"

text \<open>The body of \<^verbatim>\<open>for (const comp of clusters)\<close>, on the system and the map
  \<^verbatim>\<open>next\<close>. A tracked group is an object shared by \<^verbatim>\<open>this.groups\<close> and \<^verbatim>\<open>next\<close>, so
  its new members and anchor are written to both. \<^verbatim>\<open>pickAnchor\<close> is defined here, the
  component having more than one member.\<close>

definition reconcileComp ::
  "(nat \<Rightarrow> real) \<Rightarrow> pref list \<Rightarrow> system \<times> (gkey \<times> pgroup) list
     \<Rightarrow> system \<times> (gkey \<times> pgroup) list" where
  "reconcileComp rnd cmp st =
     (let s = fst st; nxt = snd st in
      if length cmp \<le> 1 then st
      else
        let key = keyFor cmp in
        case pickAnchor (emitterHeight s) (heap s) cmp of
          None \<Rightarrow> st
        | Some anchor \<Rightarrow>
            let made =
                  (case map_of (groups s) key of
                     None \<Rightarrow>
                       let tx = pickMergeTexture rnd (rng s) (heap s) cmp;
                           h = nextSprite s;
                           spr = (newSprite (fst tx))\<lparr>s_anchor := 0.5,
                                   s_x := p_x (heap s anchor), s_y := p_y (heap s anchor)\<rparr>
                       in (s\<lparr>rng := snd tx, nextSprite := h + 1,
                              sprites := addChild h ((sprites s)(h := spr))\<rparr>,
                           \<lparr>g_key = key, g_particles = cmp, g_sprite = h, g_anchor = anchor\<rparr>)
                   | Some g \<Rightarrow>
                       let g' = g\<lparr>g_particles := cmp, g_anchor := anchor\<rparr>
                       in (s\<lparr>groups := AList.update key g' (groups s)\<rparr>, g'))
            in (fold markMerged cmp (fst made), AList.update key (snd made) nxt))"

text \<open>The body of \<^verbatim>\<open>for (const [key, g] of this.groups)\<close>.\<close>

definition dropStale ::
  "(gkey \<times> pgroup) list \<Rightarrow> gkey \<times> pgroup \<Rightarrow> (nat \<Rightarrow> sprite) \<Rightarrow> (nat \<Rightarrow> sprite)" where
  "dropStale nxt kg spr =
     (if map_of nxt (fst kg) = None \<and> s_parent (spr (g_sprite (snd kg)))
      then removeChild (g_sprite (snd kg)) spr else spr)"

text \<open>The body of the last loop of \<^verbatim>\<open>reconcileVisuals\<close>.\<close>

definition showSingle :: "pref \<Rightarrow> system \<Rightarrow> system" where
  "showSingle p s =
     (if \<not> p_active (heap s p) then s
      else case map_of (singleSprites s) p of
             None \<Rightarrow> s
           | Some h \<Rightarrow>
               s\<lparr>sprites := (sprites s)(h := (sprites s h)\<lparr>s_visible := \<not> p_merged (heap s p)\<rparr>)\<rparr>)"

definition reconcileVisuals :: "(nat \<Rightarrow> real) \<Rightarrow> pref list list \<Rightarrow> system \<Rightarrow> system" where
  "reconcileVisuals rnd clusters s =
     (let st = fold (reconcileComp rnd) clusters (resetMerged s, []);
          s2 = fst st;
          nxt = snd st;
          s3 = s2\<lparr>sprites := fold (dropStale nxt) (groups s2) (sprites s2)\<rparr>;
          s4 = s3\<lparr>groups := nxt\<rparr>
      in fold showSingle (particles s4) s4)"

subsection \<open>Spawning\<close>

definition getVisualSpriteCount :: "system \<Rightarrow> nat" where
  "getVisualSpriteCount s =
     length (filter (\<lambda>p. p_active (heap s p)) (particles s)) + length (groups s)"

definition spawnOne :: "(nat \<Rightarrow> real) \<Rightarrow> system \<Rightarrow> system" where
  "spawnOne rnd s =
     (let i = rng s;
          angle = rnd i * pi * 2;
          radius = rnd (i + 1) * 30;
          x = emitterWidth s / 2 + cos angle * radius;
          baseBias = rnd (i + 2) * 0.5;
          verticalOffset = baseBias * baseBias * 15;
          y = emitterHeight s - 10 - verticalOffset + sin angle * radius * 0.3;
          made = newParticle rnd (i + 3) x y;
          p = nextId s;
          tx = pickSingle rnd (snd made);
          h = nextSprite s;
          spr = (newSprite (fst tx))\<lparr>s_anchor := 0.5, s_x := x, s_y := y,
                  s_rotation := rnd (snd tx) * pi * 2\<rparr>
      in s\<lparr>heap := (heap s)(p := fst made),
           nextId := p + 1,
           particles := particles s @ [p],
           rng := snd tx + 1,
           nextSprite := h + 1,
           singleSprites := AList.update p h (singleSprites s),
           sprites := addChild h ((sprites s)(h := spr))\<rparr>)"

definition maybeSpawn :: "(nat \<Rightarrow> real) \<Rightarrow> system \<Rightarrow> system" where
  "maybeSpawn rnd s =
     (if spawnTimer s < spawnInterval s then s
      else
        let visual = real (getVisualSpriteCount s);
            s1 = (if visual < maxSprites s
                  then spawnOne rnd
                         (s\<lparr>spawnInterval := (if visual > maxSprites s - 3 then 0.25 else 0.15)\<rparr>)
                  else s)
        in s1\<lparr>spawnTimer := 0\<rparr>)"

subsection \<open>Pushing transforms to the sprites\<close>

text \<open>The body of \<^verbatim>\<open>for (const [p, s] of this.singleSprites)\<close>.\<close>

definition updateSingle ::
  "real \<Rightarrow> (pref \<Rightarrow> particle) \<Rightarrow> pref \<times> nat \<Rightarrow> (nat \<Rightarrow> sprite) \<Rightarrow> (nat \<Rightarrow> sprite)" where
  "updateSingle H hp ph spr =
     (let q = hp (fst ph); h = snd ph in
      if \<not> p_active q \<or> p_merged q then spr
      else
        let progress = (1 - p_life q / p_maxLife q) ^ 2;
            baseScale = max 0.1 (4 - progress * 3.8);
            heightProgress = p_y q / H;
            horizontalScale = 0.3 + heightProgress * 0.7
        in spr(h := (spr h)\<lparr>s_x := p_x q, s_y := p_y q, s_alpha := getAlpha q,
                 s_blendMode := 1, s_scaleX := baseScale * horizontalScale,
                 s_scaleY := baseScale\<rparr>))"

definition updateSingleSprites :: "system \<Rightarrow> system" where
  "updateSingleSprites s =
     s\<lparr>sprites := fold (updateSingle (emitterHeight s) (heap s)) (singleSprites s) (sprites s)\<rparr>"

text \<open>The two exceptional branches of \<^verbatim>\<open>updateGroupSprites\<close>. The model of the loop
  returns, beside the state, the list of the branches it took.\<close>

datatype branch = AnchorReselected | NoSurvivors

text \<open>The body of \<^verbatim>\<open>for (const grp of this.groups.values())\<close>. Where \<^verbatim>\<open>pickAnchor\<close>
  gives \<^verbatim>\<open>undefined\<close> (a group without particles) the model keeps the old anchor; the
  branch \<open>n = 0\<close> that follows does not read it.\<close>

definition updateGroup :: "gkey \<times> pgroup \<Rightarrow> system \<times> branch list \<Rightarrow> system \<times> branch list" where
  "updateGroup kg st =
     (let s = fst st; log = snd st; grp = snd kg;
          dead = \<not> p_active (heap s (g_anchor grp));
          anchor =
            (if dead
             then (case pickAnchor (emitterHeight s) (heap s) (g_particles grp) of
                     Some a \<Rightarrow> a | None \<Rightarrow> g_anchor grp)
             else g_anchor grp);
          s1 = (if dead
                then s\<lparr>groups := AList.update (fst kg) (grp\<lparr>g_anchor := anchor\<rparr>) (groups s)\<rparr>
                else s);
          log1 = (if dead then log @ [AnchorReselected] else log);
          alive = filter (\<lambda>p. p_active (heap s p)) (g_particles grp);
          sa = sum_list (map (\<lambda>p. getAlpha (heap s p)) alive);
          n = length alive;
          h = g_sprite grp
      in if n = 0
         then (s1\<lparr>sprites := (if s_parent (sprites s h) then removeChild h (sprites s)
                                else sprites s)\<rparr>,
               log1 @ [NoSurvivors])
         else
           let a = heap s anchor;
               H = emitterHeight s;
               progress = max 0 ((H - p_y a) / H);
               baseScale = max 0.2 (4.2 - progress * 4);
               heightProgress = p_y a / H;
               horizontalScale = 0.3 + heightProgress * 0.7
           in (s1\<lparr>sprites := (sprites s)(h := (sprites s h)\<lparr>s_x := p_x a, s_y := p_y a,
                       s_alpha := sa / real n, s_blendMode := 1,
                       s_scaleX := baseScale * horizontalScale, s_scaleY := baseScale\<rparr>)\<rparr>,
               log1))"

definition updateGroupSprites_log :: "system \<Rightarrow> system \<times> branch list" where
  "updateGroupSprites_log s = fold updateGroup (groups s) (s, [])"

definition updateGroupSprites :: "system \<Rightarrow> system" where
  "updateGroupSprites s = fst (updateGroupSprites_log s)"

subsection \<open>One frame\<close>

definition updateParticle :: "(nat \<Rightarrow> real) \<Rightarrow> real \<Rightarrow> pref \<Rightarrow> system \<Rightarrow> system" where
  "updateParticle rnd dt p s =
     (let r = Particle_update rnd (rng s) dt (heap s p)
      in s\<lparr>heap := (heap s)(p := fst r), rng := snd r\<rparr>)"

text \<open>\<^verbatim>\<open>update\<close> up to and including \<^verbatim>\<open>cullDeadParticles\<close>.\<close>

definition simulate :: "(nat \<Rightarrow> real) \<Rightarrow> real \<Rightarrow> system \<Rightarrow> system" where
  "simulate rnd dt s =
     (let s0 = s\<lparr>spawnTimer := spawnTimer s + dt\<rparr>;
          s1 = fold (updateParticle rnd dt) (particles s0) s0
      in cullDeadParticles s1)"

text \<open>\<^verbatim>\<open>update\<close> up to the call of \<^verbatim>\<open>updateGroupSprites\<close>.\<close>

definition beforeGroupSprites :: "(nat \<Rightarrow> real) \<Rightarrow> real \<Rightarrow> system \<Rightarrow> system" where
  "beforeGroupSprites rnd dt s =
     (let s2 = simulate rnd dt s;
          clusters = clusterToFitBudget s2;
          s3 = reconcileVisuals rnd clusters s2;
          s4 = maybeSpawn rnd s3
      in updateSingleSprites s4)"

definition update :: "(nat \<Rightarrow> real) \<Rightarrow> real \<Rightarrow> system \<Rightarrow> system" where
  "update rnd dt s = updateGroupSprites (beforeGroupSprites rnd dt s)"

subsection \<open>Construction and reachable states\<close>

text \<open>The options the constructor reads. The particle and sprite stores, the static id
  counter and the position in the random stream are the environment the system is
  created in.\<close>

record options =
  o_max :: real
  o_width :: real
  o_height :: real
  o_mergeDistance :: "real option"
  o_spawnInterval :: "real option"

definition newSystem ::
  "options \<Rightarrow> (pref \<Rightarrow> particle) \<Rightarrow> (nat \<Rightarrow> sprite) \<Rightarrow> nat \<Rightarrow> nat \<Rightarrow> nat \<Rightarrow> system" where
  "newSystem opts hp spr nid nsp r =
     \<lparr>maxSprites = o_max opts, emitterWidth = o_width opts, emitterHeight = o_height opts,
      baseMergeDistance = (case o_mergeDistance opts of Some d \<Rightarrow> d | None \<Rightarrow> 5),
      spawnTimer = 0,
      spawnInterval = (case o_spawnInterval opts of Some d \<Rightarrow> d | None \<Rightarrow> 0.15),
      particles = [], singleSprites = [], groups = [],
      heap = hp, sprites = spr, nextId = nid, nextSprite = nsp, rng = r\<rparr>"

text \<open>The states a system with options \<open>opts\<close> goes through under the random stream
  \<open>rnd\<close>: the fresh system, and each state after a call of \<^verbatim>\<open>update\<close>.\<close>

inductive reachable :: "(nat \<Rightarrow> real) \<Rightarrow> options \<Rightarrow> system \<Rightarrow> bool" for rnd opts where
  fresh: "reachable rnd opts (newSystem opts hp spr nid nsp r)"
| frame: "reachable rnd opts s \<Longrightarrow> reachable rnd opts (update rnd dt s)"

text \<open>The visible draw primitives: the visible, attached single sprites of the active
  particles that are not merged, and the attached sprites of the groups.\<close>

definition visibleSingles :: "system \<Rightarrow> nat" where
  "visibleSingles s =
     length (filter (\<lambda>p. p_active (heap s p) \<and> \<not> p_merged (heap s p) \<and>
                (case map_of (singleSprites s) p of
                   Some h \<Rightarrow> s_visible (sprites s h) \<and> s_parent (sprites s h)
                 | None \<Rightarrow> False))
        (particles s))"

definition attachedGroups :: "system \<Rightarrow> nat" where
  "attachedGroups s =
     length (filter (\<lambda>kg. s_parent (sprites s (g_sprite (snd kg)))) (groups s))"

definition visualCount :: "system \<Rightarrow> nat" where
  "visualCount s = visibleSingles s + attachedGroups s"

text \<open>The escalation of \<^verbatim>\<open>clusterToFitBudget\<close> in the words of the specification: the
  clustering of the first multiplier of the list whose cluster count fits the budget,
  and the clustering of the last multiplier when none fits.\<close>

definition firstFit :: "(real \<Rightarrow> pref list list) \<Rightarrow> real \<Rightarrow> real list \<Rightarrow> pref list list" where
  "firstFit cp maxS ms =
     (case find (\<lambda>m. real (length (cp m)) \<le> maxS) ms of
        Some m \<Rightarrow> cp m
      | None \<Rightarrow> cp (last ms))"

subsection \<open>The admitted-neighbour graph of a cluster\<close>

text \<open>A cluster is returned in the order in which its members were admitted, so the
  running centroid at the moment the member at index \<open>i\<close> was tested is the mean of
  the members before it. The member at index \<open>i\<close> is admitted from the one at index
  \<open>j\<close> when \<open>j\<close> comes first and the pair passes the pairwise test and the cohesion
  test. \<open>linked\<close> says that every member but the seed was admitted from some member;
  \<open>connectedCluster\<close> says that any two members are joined by a path of such edges,
  taken in either direction.\<close>

definition centroid :: "(pref \<Rightarrow> particle) \<Rightarrow> pref list \<Rightarrow> real \<times> real" where
  "centroid hp c =
     (sum_list (map (\<lambda>p. p_x (hp p)) c) / real (length c),
      sum_list (map (\<lambda>p. p_y (hp p)) c) / real (length c))"

definition admittedFrom :: "real \<Rightarrow> (pref \<Rightarrow> particle) \<Rightarrow> real \<Rightarrow> pref list \<Rightarrow> nat \<Rightarrow> nat \<Rightarrow> bool" where
  "admittedFrom H hp t c j i =
     (j < i \<and> i < length c \<and> \<not> pairFar H hp t (c ! j) (c ! i)
      \<and> \<not> cohesionFar H hp t (fst (centroid hp (take i c))) (snd (centroid hp (take i c))) (c ! i))"

definition admitEdges :: "real \<Rightarrow> (pref \<Rightarrow> particle) \<Rightarrow> real \<Rightarrow> pref list \<Rightarrow> (pref \<times> pref) set" where
  "admitEdges H hp t c = {(c ! j, c ! i) | j i. admittedFrom H hp t c j i}"

definition linked :: "real \<Rightarrow> (pref \<Rightarrow> particle) \<Rightarrow> real \<Rightarrow> pref list \<Rightarrow> bool" where
  "linked H hp t c = (\<forall>i. 0 < i \<and> i < length c \<longrightarrow> (\<exists>j. admittedFrom H hp t c j i))"

definition connectedCluster :: "real \<Rightarrow> (pref \<Rightarrow> particle) \<Rightarrow> real \<Rightarrow> pref list \<Rightarrow> bool" where
  "connectedCluster H hp t c =
     (\<forall>p \<in> set c. \<forall>q \<in> set c. (p, q) \<in> (admitEdges H hp t c \<union> (admitEdges H hp t c)\<inverse>)\<^sup>*)"

subsection \<open>Invariants of the clustering loops\<close>

text \<open>The invariant of the growth of one component: \<open>V0\<close> is the visited set before the
  seed, \<open>U\<close> the particles in the buckets.\<close>

definition growInv ::
  "real \<Rightarrow> (pref \<Rightarrow> particle) \<Rightarrow> real \<Rightarrow> nat set \<Rightarrow> nat set \<Rightarrow> comp_state \<Rightarrow> pref list \<Rightarrow> bool" where
  "growInv H hp t V0 U a stack =
     (c_visited a = V0 \<union> set (c_comp a) \<and> distinct (c_comp a) \<and> set (c_comp a) \<inter> V0 = {}
      \<and> set (c_comp a) \<subseteq> U \<and> c_comp a \<noteq> [] \<and> set stack \<subseteq> set (c_comp a)
      \<and> c_count a = length (c_comp a)
      \<and> c_sumX a = sum_list (map (\<lambda>p. p_x (hp p)) (c_comp a))
      \<and> c_sumY a = sum_list (map (\<lambda>p. p_y (hp p)) (c_comp a))
      \<and> c_cx a = c_sumX a / real (c_count a)
      \<and> c_cy a = c_sumY a / real (c_count a)
      \<and> linked H hp t (c_comp a))"

text \<open>The invariant of the loop over the seeds, on the visited set and the clusters.\<close>

definition seedInv ::
  "real \<Rightarrow> (pref \<Rightarrow> particle) \<Rightarrow> real \<Rightarrow> nat set \<Rightarrow> nat set \<times> pref list list \<Rightarrow> bool" where
  "seedInv H hp t U st =
     (fst st = set (concat (snd st)) \<and> distinct (concat (snd st)) \<and> fst st \<subseteq> U
      \<and> [] \<notin> set (snd st) \<and> (\<forall>c \<in> set (snd st). linked H hp t c))"

subsection \<open>Example inputs\<close>

text \<open>An active particle at rest, and the store that holds such particles at the given
  positions under the ids \<open>1, 2, \<dots>\<close>.\<close>

definition still :: "real \<Rightarrow> real \<Rightarrow> particle" where
  "still x y = \<lparr>p_x = x, p_y = y, p_vx = 0, p_vy = 0, p_life = 2, p_maxLife = 3,
                p_active = True, p_merged = False\<rparr>"

definition heapOf :: "(real \<times> real) list \<Rightarrow> pref \<Rightarrow> particle" where
  "heapOf xys i =
     (if 0 < i \<and> i \<le> length xys then still (fst (xys ! (i - 1))) (snd (xys ! (i - 1)))
      else still 0 0)"

text \<open>A system with the default merge distance and spawn interval, a budget of 10 and a
  100 by 100 emitter, holding the given particles; no sprite is tracked.\<close>

definition exampleOptions :: options where
  "exampleOptions = \<lparr>o_max = 10, o_width = 100, o_height = 100, o_mergeDistance = None,
                       o_spawnInterval = None\<rparr>"

definition exampleSystem :: "(pref \<Rightarrow> particle) \<Rightarrow> pref list \<Rightarrow> system" where
  "exampleSystem hp ps =
     (newSystem exampleOptions hp (\<lambda>h. newSprite ([], None, 0)) (Suc (length ps)) 0 0)
       \<lparr>particles := ps\<rparr>"

subsection \<open>Predicates used in the proofs about a frame\<close>

text \<open>A group whose anchor and members are all active; it has a member.\<close>

definition groupAlive :: "(pref \<Rightarrow> particle) \<Rightarrow> pgroup \<Rightarrow> bool" where
  "groupAlive hp g =
     (p_active (hp (g_anchor g)) \<and> list_all (\<lambda>p. p_active (hp p)) (g_particles g)
      \<and> g_particles g \<noteq> [])"

text \<open>A particle without its transient \<open>merged\<close> flag.\<close>

definition physical :: "particle \<Rightarrow> particle" where
  "physical p = p\<lparr>p_merged := False\<rparr>"

text \<open>The state in which the members of a component are flagged, and the group stored
  for the component.\<close>

definition madeFor :: "(nat \<Rightarrow> real) \<Rightarrow> pref list \<Rightarrow> system \<Rightarrow> pref \<Rightarrow> system \<times> pgroup" where
  "madeFor rnd c s anchor =
     (case map_of (groups s) (keyFor c) of
        None \<Rightarrow>
          let tx = pickMergeTexture rnd (rng s) (heap s) c;
              h = nextSprite s;
              spr = (newSprite (fst tx))\<lparr>s_anchor := 0.5,
                      s_x := p_x (heap s anchor), s_y := p_y (heap s anchor)\<rparr>
          in (s\<lparr>rng := snd tx, nextSprite := h + 1,
                 sprites := addChild h ((sprites s)(h := spr))\<rparr>,
              \<lparr>g_key = keyFor c, g_particles = c, g_sprite = h, g_anchor = anchor\<rparr>)
      | Some g \<Rightarrow>
          let g' = g\<lparr>g_particles := c, g_anchor := anchor\<rparr>
          in (s\<lparr>groups := AList.update (keyFor c) g' (groups s)\<rparr>, g'))"

text \<open>What the loop over the clusters keeps and establishes, from the state \<open>st\<close> before
  the clusters \<open>cs\<close> to the state \<open>st'\<close> after them.\<close>

definition big :: "pref list \<Rightarrow> bool" where
  "big c = (1 < length c)"

definition compsStep ::
  "pref list list \<Rightarrow> system \<times> (gkey \<times> pgroup) list \<Rightarrow> system \<times> (gkey \<times> pgroup) list \<Rightarrow> bool" where
  "compsStep cs st st' =
     (particles (fst st') = particles (fst st) \<and> nextId (fst st') = nextId (fst st)
      \<and> maxSprites (fst st') = maxSprites (fst st)
      \<and> emitterHeight (fst st') = emitterHeight (fst st)
      \<and> spawnTimer (fst st') = spawnTimer (fst st)
      \<and> spawnInterval (fst st') = spawnInterval (fst st)
      \<and> singleSprites (fst st') = singleSprites (fst st)
      \<and> (\<forall>q. physical (heap (fst st') q) = physical (heap (fst st) q))
      \<and> (\<forall>q. p_merged (heap (fst st') q)
               = (p_merged (heap (fst st) q) \<or> q \<in> set (concat (filter big cs))))
      \<and> length (snd st') \<le> length (snd st) + length (filter big cs)
      \<and> (\<forall>kg \<in> set (snd st'). kg \<in> set (snd st)
             \<or> (g_particles (snd kg) \<in> set (filter big cs)
                 \<and> g_anchor (snd kg) \<in> set (g_particles (snd kg)))))"

text \<open>What \<^verbatim>\<open>reconcileVisuals\<close> keeps and establishes.\<close>

definition reconciled :: "pref list list \<Rightarrow> system \<Rightarrow> system \<Rightarrow> bool" where
  "reconciled cs s s' =
     (particles s' = particles s \<and> nextId s' = nextId s \<and> maxSprites s' = maxSprites s
      \<and> emitterHeight s' = emitterHeight s \<and> spawnTimer s' = spawnTimer s
      \<and> spawnInterval s' = spawnInterval s \<and> singleSprites s' = singleSprites s
      \<and> (\<forall>q. physical (heap s' q) = physical (heap s q))
      \<and> (\<forall>q \<in> set (particles s). p_merged (heap s' q) = (q \<in> set (concat (filter big cs))))
      \<and> length (groups s') \<le> length (filter big cs)
      \<and> (\<forall>kg \<in> set (groups s'). g_particles (snd kg) \<in> set (filter big cs)
                 \<and> g_anchor (snd kg) \<in> set (g_particles (snd kg))))"

text \<open>The outcomes of \<^verbatim>\<open>maybeSpawn\<close>: nothing happens, or a particle is spawned.\<close>

definition spawned :: "system \<Rightarrow> system \<Rightarrow> bool" where
  "spawned s s' =
     (real (getVisualSpriteCount s) < maxSprites s
      \<and> particles s' = particles s @ [nextId s] \<and> nextId s' = nextId s + 1
      \<and> p_active (heap s' (nextId s)) \<and> \<not> p_merged (heap s' (nextId s))
      \<and> (\<forall>q. q \<noteq> nextId s \<longrightarrow> heap s' q = heap s q)
      \<and> spawnTimer s' = 0)"

definition notSpawned :: "system \<Rightarrow> system \<Rightarrow> bool" where
  "notSpawned s s' =
     (particles s' = particles s \<and> nextId s' = nextId s \<and> heap s' = heap s
      \<and> (spawnTimer s' = spawnTimer s \<or> spawnTimer s' = 0))"

text \<open>The particles of the system that are not merged, and the invariant behind the
  budget: ids are fresh, the particle list is within the budget \<open>n\<close>, and so is the
  number of unmerged particles plus the number of groups.\<close>

definition unmergedCount :: "system \<Rightarrow> nat" where
  "unmergedCount s = length (filter (\<lambda>p. \<not> p_merged (heap s p)) (particles s))"

definition budgetInv :: "nat \<Rightarrow> system \<Rightarrow> bool" where
  "budgetInv n s =
     (maxSprites s = real n \<and> distinct (particles s)
      \<and> (\<forall>p \<in> set (particles s). p < nextId s)
      \<and> length (particles s) \<le> n
      \<and> unmergedCount s + length (groups s) \<le> n)"

text \<open>The particle array holds no particle twice, and only particles that exist.\<close>

definition wellFormed :: "system \<Rightarrow> bool" where
  "wellFormed s = (distinct (particles s) \<and> (\<forall>p \<in> set (particles s). p < nextId s))"

text \<open>Further example inputs: a moving particle, the random stream that always gives
  one half, a fresh system, and a system of two particles at distance 3.\<close>

definition drifting :: particle where
  "drifting = \<lparr>p_x = 50, p_y = 50, p_vx = 2, p_vy = - 40, p_life = 2, p_maxLife = 3,
                p_active = True, p_merged = False\<rparr>"

definition halves :: "nat \<Rightarrow> real" where
  "halves i = 1 / 2"

definition freshExample :: system where
  "freshExample = newSystem exampleOptions (\<lambda>p. still 0 0) (\<lambda>h. newSprite ([], None, 0)) 1 0 0"

definition pairExample :: system where
  "pairExample = exampleSystem (heapOf [(10, 44), (13, 44)]) [1, 2]"

text \<open>A fresh system whose budget is not a whole number.\<close>

definition halfOptions :: options where
  "halfOptions = \<lparr>o_max = 1 / 2, o_width = 100, o_height = 100, o_mergeDistance = None,
                    o_spawnInterval = None\<rparr>"

definition halfExample :: system where
  "halfExample = newSystem halfOptions (\<lambda>p. still 0 0) (\<lambda>h. newSprite ([], None, 0)) 1 0 0"

subsection \<open>The sprites of the groups\<close>

text \<open>The sprite handles of a map of groups, and its keys with their handles.\<close>

definition handles :: "(gkey \<times> pgroup) list \<Rightarrow> nat list" where
  "handles gs = map (g_sprite \<circ> snd) gs"

definition shape :: "(gkey \<times> pgroup) list \<Rightarrow> (gkey \<times> nat) list" where
  "shape gs = map (\<lambda>kg. (fst kg, g_sprite (snd kg))) gs"

text \<open>The tracked groups are consistent: no key and no sprite is held twice, every
  group sprite exists and is attached, the key of a group is the key of its members,
  and the single sprites exist and are not group sprites.\<close>

definition groupsWf :: "system \<Rightarrow> bool" where
  "groupsWf s =
     (distinct (map fst (groups s)) \<and> distinct (handles (groups s))
      \<and> (\<forall>kg \<in> set (groups s).
            g_sprite (snd kg) < nextSprite s \<and> fst kg = keyFor (g_particles (snd kg))
            \<and> distinct (g_particles (snd kg)) \<and> s_parent (sprites s (g_sprite (snd kg))))
      \<and> (\<forall>ph \<in> set (singleSprites s).
            snd ph < nextSprite s \<and> snd ph \<notin> set (handles (groups s))))"

text \<open>What the loop over the clusters keeps of the sprites, from the state \<open>s0\<close> before
  the loop to the state and the map \<^verbatim>\<open>next\<close> after the clusters \<open>dn\<close>.\<close>

definition loopInv ::
  "system \<Rightarrow> pref list list \<Rightarrow> system \<times> (gkey \<times> pgroup) list \<Rightarrow> bool" where
  "loopInv s0 dn st =
     (nextSprite s0 \<le> nextSprite (fst st)
      \<and> shape (groups (fst st)) = shape (groups s0)
      \<and> map fst (snd st) = map keyFor (filter big dn)
      \<and> map (g_particles \<circ> snd) (snd st) = filter big dn
      \<and> (\<forall>kg \<in> set (snd st).
            case map_of (groups s0) (fst kg) of
              Some g0 \<Rightarrow> g_sprite (snd kg) = g_sprite g0
            | None \<Rightarrow> nextSprite s0 \<le> g_sprite (snd kg)
                      \<and> g_sprite (snd kg) < nextSprite (fst st)
                      \<and> s_parent (sprites (fst st) (g_sprite (snd kg))))
      \<and> (\<forall>h < nextSprite s0. s_parent (sprites (fst st) h) = s_parent (sprites s0 h))
      \<and> distinct (handles (snd st)))"

text \<open>What \<^verbatim>\<open>reconcileVisuals\<close> does to the group sprites.\<close>

definition regrouped :: "pref list list \<Rightarrow> system \<Rightarrow> system \<Rightarrow> bool" where
  "regrouped cs s s' =
     (map fst (groups s') = map keyFor (filter big cs)
      \<and> map (g_particles \<circ> snd) (groups s') = filter big cs
      \<and> distinct (handles (groups s'))
      \<and> nextSprite s \<le> nextSprite s'
      \<and> (\<forall>kg \<in> set (groups s').
            case map_of (groups s) (fst kg) of
              Some g0 \<Rightarrow> g_sprite (snd kg) = g_sprite g0
                         \<and> s_parent (sprites s' (g_sprite g0)) = s_parent (sprites s (g_sprite g0))
            | None \<Rightarrow> nextSprite s \<le> g_sprite (snd kg) \<and> g_sprite (snd kg) < nextSprite s'
                      \<and> s_parent (sprites s' (g_sprite (snd kg))))
      \<and> (\<forall>kg \<in> set (groups s). map_of (groups s') (fst kg) = None
            \<longrightarrow> \<not> s_parent (sprites s' (g_sprite (snd kg))))
      \<and> (\<forall>h < nextSprite s. h \<notin> set (handles (groups s))
            \<longrightarrow> s_parent (sprites s' h) = s_parent (sprites s h)))"

text \<open>Two groups with the same member-id set.\<close>

definition sameMembers :: "gkey \<times> pgroup \<Rightarrow> gkey \<times> pgroup \<Rightarrow> bool" where
  "sameMembers kg kg' = (set (g_particles (snd kg')) = set (g_particles (snd kg)))"

text \<open>Two particles tracked as the group \<open>1,2\<close> on the sprite 0, their hidden single
  sprites on the handles 1 and 2; a state in which both particles live on, and one in
  which particle 2 has a twentieth of a second left.\<close>

definition trackedPair :: "(pref \<Rightarrow> particle) \<Rightarrow> system" where
  "trackedPair hp =
     (exampleSystem hp [1, 2])
       \<lparr>singleSprites := [(1, 1), (2, 2)],
        groups := [([1, 2], \<lparr>g_key = [1, 2], g_particles = [1, 2], g_sprite = 0, g_anchor = 1\<rparr>)],
        sprites := (\<lambda>h. (newSprite ([], None, 0))\<lparr>s_visible := (h = 0), s_parent := True\<rparr>),
        nextSprite := 3\<rparr>"

definition stayingExample :: system where
  "stayingExample = trackedPair (heapOf [(10, 44), (13, 44)])"

definition dyingExample :: system where
  "dyingExample =
     trackedPair ((heapOf [(10, 44), (13, 44)])(2 := (still 13 44)\<lparr>p_life := 1 / 20\<rparr>))"

section \<open>Properties\<close>

subsection \<open>The alpha of a particle\<close>

text \<open>
  C5 (as stated): the alpha of an active particle is \<open>min 1 (2 * life / maxLife)\<close>.
  The code does not divide by \<open>maxLife\<close>: an active particle with \<open>life = 1\<close> and
  \<open>maxLife = 3\<close> has alpha \<open>1\<close>, not \<open>2/3\<close>.
\<close>

theorem getAlpha_ratio_counterexample:
  "getAlpha \<lparr>p_x = 0, p_y = 0, p_vx = 0, p_vy = 0, p_life = 1, p_maxLife = 3,
             p_active = True, p_merged = False\<rparr>
     \<noteq> min 1 (2 * p_life \<lparr>p_x = 0, p_y = 0, p_vx = 0, p_vy = 0, p_life = 1, p_maxLife = 3,
                             p_active = True, p_merged = False\<rparr>
                  / p_maxLife \<lparr>p_x = 0, p_y = 0, p_vx = 0, p_vy = 0, p_life = 1, p_maxLife = 3,
                               p_active = True, p_merged = False\<rparr>)"
  by (simp add: getAlpha_def)

text \<open>
  C5 (amended): the alpha of an active particle is \<open>min 1 (2 * life)\<close>, with \<open>life\<close> in
  seconds, and the alpha of an inactive particle is \<open>0\<close>; it does not depend on
  \<open>maxLife\<close>. A particle fades during its last half second.
\<close>

theorem getAlpha_half_second:
  "getAlpha p = (if p_active p then min 1 (2 * p_life p) else 0)
   \<and> getAlpha (p\<lparr>p_maxLife := m\<rparr>) = getAlpha p"
  by (simp add: getAlpha_def Let_def min_def)

subsection \<open>Fitting the budget\<close>

lemma fitLoop_firstFit:
  "ms \<noteq> [] \<Longrightarrow> fitLoop cp maxS ms chosen = firstFit cp maxS ms"
proof (induction ms arbitrary: chosen)
  case Nil
  then show ?case by simp
next
  case (Cons m ms)
  show ?case
  proof (cases "real (length (cp m)) \<le> maxS")
    case True
    then show ?thesis by (simp add: firstFit_def)
  next
    case False
    show ?thesis
    proof (cases ms)
      case Nil
      with False show ?thesis by (simp add: firstFit_def)
    next
      case (Cons m' ms')
      then have "ms \<noteq> []" by simp
      from Cons.IH [OF this, of "cp m"] False \<open>ms \<noteq> []\<close>
      show ?thesis by (simp add: firstFit_def split: option.splits)
    qed
  qed
qed

lemma firstFit_fits_or_exhausted:
  "real (length (firstFit cp maxS ms)) \<le> maxS
   \<or> list_all (\<lambda>m. \<not> real (length (cp m)) \<le> maxS) ms"
proof (cases "find (\<lambda>m. real (length (cp m)) \<le> maxS) ms")
  case None
  then show ?thesis by (simp add: find_None_iff list_all_iff)
next
  case (Some m)
  then have "real (length (cp m)) \<le> maxS" by (auto simp: find_Some_iff)
  with Some show ?thesis by (simp add: firstFit_def)
qed

text \<open>
  C2: for a non-empty set of active particles, \<^verbatim>\<open>clusterToFitBudget\<close> tries the
  multipliers \<open>1, 1.12, 1.4, 1.8, 2, 2.2\<close>, which increase, at the threshold
  \<open>baseMergeDistance * m\<close>, and returns the clustering of the first multiplier whose
  cluster count is at most the budget, or that of the largest multiplier when no
  multiplier fits. So the chosen count fits the budget, or every multiplier failed.
\<close>

theorem clusterToFitBudget_firstFit:
  assumes "filter (\<lambda>p. p_active (heap s p)) (particles s) = actives" and "actives \<noteq> []"
  shows "clusterToFitBudget s = firstFit (clusterAt s actives) (maxSprites s) multipliers
         \<and> multipliers = [1, 1.12, 1.4, 1.8, 2, 2.2]
         \<and> sorted_wrt (<) multipliers
         \<and> (\<forall>m. clusterAt s actives m
                  = clusterParticles (emitterHeight s) (heap s) actives (baseMergeDistance s * m))
         \<and> (real (length (clusterToFitBudget s)) \<le> maxSprites s
              \<or> list_all (\<lambda>m. \<not> real (length (clusterAt s actives m)) \<le> maxSprites s)
                   multipliers)"
proof -
  have ne: "multipliers \<noteq> []" by (simp add: multipliers_def)
  have eq: "clusterToFitBudget s = firstFit (clusterAt s actives) (maxSprites s) multipliers"
    using assms fitLoop_firstFit [OF ne] by (simp add: clusterToFitBudget_def Let_def)
  have inc: "sorted_wrt (<) multipliers" by (simp add: multipliers_def)
  show ?thesis
    using eq inc firstFit_fits_or_exhausted [of "clusterAt s actives" "maxSprites s" multipliers]
    by (simp add: multipliers_def clusterAt_def)
qed

subsection \<open>Clustering\<close>

lemma update_values_set:
  "map_of bk k = Some l \<Longrightarrow>
   set (concat (map snd (AList.update k (l @ [p]) bk))) = insert p (set (concat (map snd bk)))"
  by (induction bk) (auto split: if_splits)

lemma addToBucket_set:
  "set (concat (map snd (addToBucket cell hp bk p))) = insert p (set (concat (map snd bk)))"
proof (cases "map_of bk (keyOf cell (p_x (hp p)) (p_y (hp p)))")
  case None
  then show ?thesis by (simp add: addToBucket_def Let_def)
next
  case (Some l)
  from update_values_set [OF this, of p] Some show ?thesis
    by (simp only: addToBucket_def Let_def option.case)
qed

lemma foldl_addToBucket_set:
  "set (concat (map snd (foldl (addToBucket cell hp) bk ps))) = set (concat (map snd bk)) \<union> set ps"
proof (induction ps arbitrary: bk)
  case Nil
  then show ?case by simp
next
  case (Cons p ps)
  have "set (concat (map snd (foldl (addToBucket cell hp) (addToBucket cell hp bk p) ps)))
        = set (concat (map snd (addToBucket cell hp bk p))) \<union> set ps"
    by (rule Cons.IH)
  also have "\<dots> = insert p (set (concat (map snd bk))) \<union> set ps"
    by (simp only: addToBucket_set)
  finally show ?case by (simp only: foldl_Cons list.set) blast
qed

lemma buildBuckets_set: "set (concat (map snd (buildBuckets cell hp ps))) = set ps"
  unfolding buildBuckets_def by (simp only: foldl_addToBucket_set) simp

lemma linked_snoc:
  assumes "linked H hp t c" "cur \<in> set c" "\<not> pairFar H hp t cur nb"
    "\<not> cohesionFar H hp t (fst (centroid hp c)) (snd (centroid hp c)) nb"
  shows "linked H hp t (c @ [nb])"
  unfolding linked_def
proof (intro allI impI)
  fix i assume i: "0 < i \<and> i < length (c @ [nb])"
  show "\<exists>j. admittedFrom H hp t (c @ [nb]) j i"
  proof (cases "i < length c")
    case True
    with assms(1) i obtain j where "admittedFrom H hp t c j i" unfolding linked_def by auto
    with True have "admittedFrom H hp t (c @ [nb]) j i"
      by (auto simp: admittedFrom_def nth_append)
    then show ?thesis ..
  next
    case False
    with i have ieq: "i = length c" by simp
    from assms(2) obtain j where j: "j < length c" "c ! j = cur" by (auto simp: in_set_conv_nth)
    with assms(3,4) ieq have "admittedFrom H hp t (c @ [nb]) j i"
      by (auto simp: admittedFrom_def nth_append)
    then show ?thesis ..
  qed
qed

lemma admit_inv:
  assumes "growInv H hp t V0 U (fst st) (snd st)" "cur \<in> set (c_comp (fst st))" "nb \<in> U"
  shows "growInv H hp t V0 U (fst (admit H hp t cur nb st)) (snd (admit H hp t cur nb st))
         \<and> set (c_comp (fst st)) \<subseteq> set (c_comp (fst (admit H hp t cur nb st)))"
proof (cases "admit H hp t cur nb st = st")
  case True
  with assms show ?thesis by simp
next
  case False
  let ?a = "fst st"
  from False have nv: "nb \<notin> c_visited ?a" and nc: "nb \<noteq> cur" and pf: "\<not> pairFar H hp t cur nb"
    and cf: "\<not> cohesionFar H hp t (c_cx ?a) (c_cy ?a) nb"
    by (auto simp: admit_def Let_def split: if_splits)
  from assms(1) have cen: "c_cx ?a = fst (centroid hp (c_comp ?a))" "c_cy ?a = snd (centroid hp (c_comp ?a))"
    by (simp_all add: growInv_def centroid_def)
  have lk: "linked H hp t (c_comp ?a @ [nb])"
    using linked_snoc [of H hp t "c_comp ?a" cur nb] assms(1,2) pf cf cen
    by (simp add: growInv_def)
  from nv nc pf cf have eq: "admit H hp t cur nb st =
      (?a\<lparr>c_visited := insert nb (c_visited ?a), c_comp := c_comp ?a @ [nb],
           c_sumX := c_sumX ?a + p_x (hp nb), c_sumY := c_sumY ?a + p_y (hp nb),
           c_count := c_count ?a + 1,
           c_cx := (c_sumX ?a + p_x (hp nb)) / real (c_count ?a + 1),
           c_cy := (c_sumY ?a + p_y (hp nb)) / real (c_count ?a + 1)\<rparr>, nb # snd st)"
    by (simp add: admit_def Let_def)
  show ?thesis
    unfolding eq using assms(1,3) nv lk
    by (auto simp: growInv_def)
qed

lemma fold_admit_inv:
  assumes "growInv H hp t V0 U (fst st) (snd st)" "cur \<in> set (c_comp (fst st))" "set cs \<subseteq> U"
  shows "growInv H hp t V0 U (fst (fold (admit H hp t cur) cs st)) (snd (fold (admit H hp t cur) cs st))
         \<and> set (c_comp (fst st)) \<subseteq> set (c_comp (fst (fold (admit H hp t cur) cs st)))"
  using assms
proof (induction cs arbitrary: st)
  case Nil
  then show ?case by simp
next
  case (Cons c cs)
  from Cons.prems have "c \<in> U" by simp
  from admit_inv [OF Cons.prems(1,2) this]
  have 1: "growInv H hp t V0 U (fst (admit H hp t cur c st)) (snd (admit H hp t cur c st))"
    and 3: "set (c_comp (fst st)) \<subseteq> set (c_comp (fst (admit H hp t cur c st)))"
    by auto
  from 3 Cons.prems(2) have 2: "cur \<in> set (c_comp (fst (admit H hp t cur c st)))" by auto
  from Cons.IH [OF 1 2] Cons.prems(3) 3 show ?case by auto
qed

lemma growInv_pop:
  "growInv H hp t V0 U a (cur # stack) \<Longrightarrow> growInv H hp t V0 U a stack \<and> cur \<in> set (c_comp a)"
  by (simp add: growInv_def)

lemma growLoop_inv:
  assumes "growInv H hp t V0 (set (concat (map snd bk))) a stack"
  shows "growInv H hp t V0 (set (concat (map snd bk))) (growLoop H hp t bk a stack) []
         \<and> set (c_comp a) \<subseteq> set (c_comp (growLoop H hp t bk a stack))"
  using assms
proof (induction H hp t bk a stack rule: growLoop.induct)
  case (1 H hp threshold bk a)
  then show ?case by simp
next
  case (2 H hp threshold bk a cur stack)
  from growInv_pop [OF "2.prems"]
  have inv: "growInv H hp threshold V0 (set (concat (map snd bk))) (fst (a, stack)) (snd (a, stack))"
    and cur: "cur \<in> set (c_comp (fst (a, stack)))" by simp_all
  have sc: "growInv H hp threshold V0 (set (concat (map snd bk)))
          (fst (scan H hp threshold bk cur (a, stack))) (snd (scan H hp threshold bk cur (a, stack)))
        \<and> set (c_comp (fst (a, stack))) \<subseteq> set (c_comp (fst (scan H hp threshold bk cur (a, stack))))"
    unfolding scan_def by (rule fold_admit_inv [OF inv cur candidates_subset])
  from "2.IH" [OF conjunct1 [OF sc]] conjunct2 [OF sc] show ?case by auto
qed

lemma growInv_seed:
  assumes "seed \<notin> V" "seed \<in> U"
  shows "growInv H hp t V U
           \<lparr>c_visited = insert seed V, c_comp = [seed], c_sumX = p_x (hp seed),
            c_sumY = p_y (hp seed), c_count = 1, c_cx = p_x (hp seed), c_cy = p_y (hp seed)\<rparr>
           [seed]"
  using assms by (simp add: growInv_def linked_def)

lemma seedStep_inv:
  assumes "seedInv H hp t (set (concat (map snd bk))) st" "seed \<in> set (concat (map snd bk))"
  shows "seedInv H hp t (set (concat (map snd bk))) (seedStep H hp t bk seed st)
         \<and> insert seed (fst st) \<subseteq> fst (seedStep H hp t bk seed st)"
proof (cases "seed \<in> fst st")
  case True
  with assms show ?thesis by (simp add: seedStep_def)
next
  case False
  let ?U = "set (concat (map snd bk))"
  let ?init = "\<lparr>c_visited = insert seed (fst st), c_comp = [seed], c_sumX = p_x (hp seed),
            c_sumY = p_y (hp seed), c_count = 1, c_cx = p_x (hp seed), c_cy = p_y (hp seed)\<rparr>"
  let ?a = "growLoop H hp t bk ?init [seed]"
  have g0: "growInv H hp t (fst st) ?U ?a [] \<and> set (c_comp ?init) \<subseteq> set (c_comp ?a)"
    by (rule growLoop_inv [OF growInv_seed [OF False assms(2)]])
  then have g: "growInv H hp t (fst st) ?U ?a []" and sd: "seed \<in> set (c_comp ?a)" by simp_all
  have eq: "seedStep H hp t bk seed st = (c_visited ?a, snd st @ [c_comp ?a])"
    using False by (simp add: seedStep_def Let_def)
  from g have v: "c_visited ?a = fst st \<union> set (c_comp ?a)" and d: "distinct (c_comp ?a)"
    and dj: "set (c_comp ?a) \<inter> fst st = {}" and sub: "set (c_comp ?a) \<subseteq> ?U"
    and ne: "c_comp ?a \<noteq> []" and lk: "linked H hp t (c_comp ?a)"
    by (simp_all add: growInv_def)
  from sd v have mono: "seed \<in> c_visited ?a" by simp
  from assms(1) have i1: "fst st = set (concat (snd st))" and i2: "distinct (concat (snd st))"
    and i3: "fst st \<subseteq> ?U" and i4: "[] \<notin> set (snd st)" and i5: "\<forall>c \<in> set (snd st). linked H hp t c"
    unfolding seedInv_def by blast+
  have "seedInv H hp t ?U (c_visited ?a, snd st @ [c_comp ?a])"
    unfolding seedInv_def using v d dj sub ne lk i1 i2 i3 i4 i5 by auto
  with eq mono v show ?thesis by auto
qed

lemma fold_seedStep_inv:
  assumes "seedInv H hp t (set (concat (map snd bk))) st" "set qs \<subseteq> set (concat (map snd bk))"
  shows "seedInv H hp t (set (concat (map snd bk))) (fold (seedStep H hp t bk) qs st)
         \<and> fst st \<union> set qs \<subseteq> fst (fold (seedStep H hp t bk) qs st)"
  using assms
proof (induction qs arbitrary: st)
  case Nil
  then show ?case by simp
next
  case (Cons q qs)
  from Cons.prems have "q \<in> set (concat (map snd bk))" by simp
  from seedStep_inv [OF Cons.prems(1) this]
  have 1: "seedInv H hp t (set (concat (map snd bk))) (seedStep H hp t bk q st)"
    and 2: "insert q (fst st) \<subseteq> fst (seedStep H hp t bk q st)" by simp_all
  from Cons.prems have "set qs \<subseteq> set (concat (map snd bk))" by simp
  from Cons.IH [OF 1 this] 2 show ?case by auto
qed

lemma clusterParticles_inv:
  "seedInv H hp t (set ps) (set ps, clusterParticles H hp ps t)"
proof -
  let ?bk = "buildBuckets t hp ps"
  let ?r = "fold (seedStep H hp t ?bk) ps ({}, [])"
  have U: "set (concat (map snd ?bk)) = set ps" by (rule buildBuckets_set)
  have "seedInv H hp t (set (concat (map snd ?bk))) ({}, [])" by (simp add: seedInv_def)
  from fold_seedStep_inv [OF this, of ps] U
  have inv: "seedInv H hp t (set ps) ?r" and sub: "set ps \<subseteq> fst ?r" by simp_all
  from inv have "fst ?r \<subseteq> set ps" unfolding seedInv_def by blast
  with sub have "fst ?r = set ps" by blast
  with inv show ?thesis by (simp add: clusterParticles_def seedInv_def)
qed

lemma linked_reaches_seed:
  assumes "linked H hp t c" "i < length c"
  shows "(c ! 0, c ! i) \<in> (admitEdges H hp t c)\<^sup>*"
  using assms(2)
proof (induction i rule: less_induct)
  case (less i)
  show ?case
  proof (cases "i = 0")
    case True
    then show ?thesis by simp
  next
    case False
    with assms(1) less.prems obtain j where j: "admittedFrom H hp t c j i"
      unfolding linked_def by auto
    then have ji: "j < i" by (simp add: admittedFrom_def)
    from j have e: "(c ! j, c ! i) \<in> admitEdges H hp t c" unfolding admitEdges_def by blast
    from less.IH [OF ji] ji less.prems have "(c ! 0, c ! j) \<in> (admitEdges H hp t c)\<^sup>*" by simp
    then show ?thesis using e by (rule rtrancl_into_rtrancl)
  qed
qed

lemma linked_connected:
  assumes "linked H hp t c"
  shows "connectedCluster H hp t c"
  unfolding connectedCluster_def
proof (intro ballI)
  let ?E = "admitEdges H hp t c"
  fix p q assume "p \<in> set c" "q \<in> set c"
  then obtain i j where i: "i < length c" "c ! i = p" and j: "j < length c" "c ! j = q"
    by (auto simp: in_set_conv_nth)
  have sub: "?E\<^sup>* \<subseteq> (?E \<union> ?E\<inverse>)\<^sup>*" by (rule rtrancl_mono) simp
  from linked_reaches_seed [OF assms i(1)] i(2) sub have "(c ! 0, p) \<in> (?E \<union> ?E\<inverse>)\<^sup>*" by auto
  then have "(p, c ! 0) \<in> ((?E \<union> ?E\<inverse>)\<^sup>*)\<inverse>" by simp
  then have 1: "(p, c ! 0) \<in> (?E \<union> ?E\<inverse>)\<^sup>*"
    by (simp add: rtrancl_converse [symmetric] converse_Un Un_commute)
  from linked_reaches_seed [OF assms j(1)] j(2) sub have 2: "(c ! 0, q) \<in> (?E \<union> ?E\<inverse>)\<^sup>*" by auto
  from 1 2 show "(p, q) \<in> (?E \<union> ?E\<inverse>)\<^sup>*" by (rule rtrancl_trans)
qed

lemma distinct_concat_unique:
  assumes "distinct (concat cs)" "p \<in> set (concat cs)"
  shows "\<exists>!i. i < length cs \<and> p \<in> set (cs ! i)"
  using assms
proof (induction cs)
  case Nil
  then show ?case by simp
next
  case (Cons c cs)
  show ?case
  proof (cases "p \<in> set c")
    case True
    have no: "p \<notin> set (cs ! i)" if "i < length cs" for i
    proof -
      from that have "cs ! i \<in> set cs" by (rule nth_mem)
      with Cons.prems(1) True show ?thesis by auto
    qed
    show ?thesis
    proof (rule ex1I [of _ 0])
      show "0 < length (c # cs) \<and> p \<in> set ((c # cs) ! 0)" using True by simp
    next
      fix i assume "i < length (c # cs) \<and> p \<in> set ((c # cs) ! i)"
      with no show "i = 0" by (cases i) auto
    qed
  next
    case False
    with Cons.prems have "distinct (concat cs)" "p \<in> set (concat cs)" by auto
    from Cons.IH [OF this] obtain i where i: "i < length cs" "p \<in> set (cs ! i)"
      and u: "\<And>j. j < length cs \<and> p \<in> set (cs ! j) \<Longrightarrow> j = i" by auto
    show ?thesis
    proof (rule ex1I [of _ "Suc i"])
      show "Suc i < length (c # cs) \<and> p \<in> set ((c # cs) ! Suc i)" using i by simp
    next
      fix j assume j: "j < length (c # cs) \<and> p \<in> set ((c # cs) ! j)"
      with False obtain j' where "j = Suc j'" by (cases j) auto
      with j u [of j'] show "j = Suc i" by simp
    qed
  qed
qed

lemma singleton_partition:
  assumes "distinct (concat cs)" "set (concat cs) = {p}" "[] \<notin> set cs"
  shows "cs = [[p]]"
proof (cases cs)
  case Nil
  with assms show ?thesis by simp
next
  case (Cons c cs')
  with assms(3) have cne: "c \<noteq> []" by auto
  from assms(2) Cons have "set c \<subseteq> {p}" by auto
  with cne assms(1) Cons have c: "c = [p]"
    by (cases c; cases "tl c") auto
  have "cs' = []"
  proof (cases cs')
    case Nil
    then show ?thesis .
  next
    case (Cons d ds)
    with assms(3) \<open>cs = c # cs'\<close> have "d \<noteq> []" by auto
    then obtain x where x: "x \<in> set d" by (cases d) auto
    with assms(2) Cons \<open>cs = c # cs'\<close> have "x = p" by auto
    with x assms(1) Cons \<open>cs = c # cs'\<close> c show ?thesis by auto
  qed
  with c Cons show ?thesis by simp
qed

lemmas cluster_eval = clusterParticles_def buildBuckets_def addToBucket_def keyOf_def seedStep_def
  scan_def candidates_def admit_def pairFar_def cohesionFar_def scaleAtY_def COHESION_def Let_def
  heapOf_def still_def

lemma clusterParticles_distinct: "distinct (concat (clusterParticles H hp ps t))"
  using clusterParticles_inv [of H hp t ps] by (simp add: seedInv_def)

lemma clusterParticles_set: "set (concat (clusterParticles H hp ps t)) = set ps"
  using clusterParticles_inv [of H hp t ps] unfolding seedInv_def by simp

lemma clusterParticles_nonempty: "[] \<notin> set (clusterParticles H hp ps t)"
  using clusterParticles_inv [of H hp t ps] by (simp add: seedInv_def)

text \<open>
  C3: for every particle list and threshold, \<^verbatim>\<open>clusterParticles\<close> returns a partition
  of the input: no particle occurs twice in the clusters, the clusters cover exactly the
  input, so every particle is in exactly one cluster; every cluster is non-empty and
  any two of its members are joined in its admitted-neighbour graph (pairwise test and
  cohesion test); the empty input gives no cluster, and one particle gives one
  singleton cluster.
\<close>

theorem clusterParticles_partition:
  "distinct (concat (clusterParticles H hp ps t))
   \<and> set (concat (clusterParticles H hp ps t)) = set ps
   \<and> (\<forall>p \<in> set ps. \<exists>!i. i < length (clusterParticles H hp ps t)
                              \<and> p \<in> set (clusterParticles H hp ps t ! i))
   \<and> (\<forall>c \<in> set (clusterParticles H hp ps t). c \<noteq> [] \<and> connectedCluster H hp t c)
   \<and> clusterParticles H hp [] t = []
   \<and> clusterParticles H hp [p] t = [[p]]"
proof -
  have inv: "seedInv H hp t (set qs) (set qs, clusterParticles H hp qs t)" for qs
    by (rule clusterParticles_inv)
  from inv [of ps] have d: "distinct (concat (clusterParticles H hp ps t))"
    and s: "set (concat (clusterParticles H hp ps t)) = set ps"
    and ne: "[] \<notin> set (clusterParticles H hp ps t)"
    and lk: "\<forall>c \<in> set (clusterParticles H hp ps t). linked H hp t c"
    by (simp_all add: seedInv_def)
  have u: "\<forall>p \<in> set ps. \<exists>!i. i < length (clusterParticles H hp ps t)
                              \<and> p \<in> set (clusterParticles H hp ps t ! i)"
    using distinct_concat_unique [OF d] s by blast
  have c: "\<forall>c \<in> set (clusterParticles H hp ps t). c \<noteq> [] \<and> connectedCluster H hp t c"
    using ne lk linked_connected by blast
  have e: "clusterParticles H hp [] t = []" by (simp add: clusterParticles_def)
  from inv [of "[p]"] have "clusterParticles H hp [p] t = [[p]]"
    by (intro singleton_partition) (simp_all add: seedInv_def)
  with d s u c e show ?thesis by blast
qed

text \<open>Two particles at distance 3, at a height where the scale is 1, with threshold 5:
  one cluster of both.\<close>

theorem clusterParticles_partition_witness:
  "clusterParticles 100 (heapOf [(10, 44), (13, 44)]) [1, 2] 5 = [[1, 2]]
   \<and> distinct (concat (clusterParticles 100 (heapOf [(10, 44), (13, 44)]) [1, 2] 5))
   \<and> set (concat (clusterParticles 100 (heapOf [(10, 44), (13, 44)]) [1, 2] 5)) = {1, 2}
   \<and> connectedCluster 100 (heapOf [(10, 44), (13, 44)]) 5 [1, 2]"
proof -
  have v: "clusterParticles 100 (heapOf [(10, 44), (13, 44)]) [1, 2] 5 = [[1, 2]]"
    by (simp add: cluster_eval)
  from clusterParticles_partition [of 100 "heapOf [(10, 44), (13, 44)]" "[1, 2]" 5] v
  show ?thesis by simp
qed

theorem clusterToFitBudget_firstFit_witness:
  "clusterToFitBudget (exampleSystem (heapOf [(10, 44), (13, 44)]) [1, 2])
     = firstFit (clusterAt (exampleSystem (heapOf [(10, 44), (13, 44)]) [1, 2]) [1, 2]) 10
         multipliers
   \<and> clusterAt (exampleSystem (heapOf [(10, 44), (13, 44)]) [1, 2]) [1, 2] 1 = [[1, 2]]
   \<and> real (length (clusterToFitBudget (exampleSystem (heapOf [(10, 44), (13, 44)]) [1, 2])))
        \<le> 10"
proof -
  let ?s = "exampleSystem (heapOf [(10, 44), (13, 44)]) [1, 2]"
  have a: "filter (\<lambda>p. p_active (heap ?s p)) (particles ?s) = [1, 2]"
    by (simp add: exampleSystem_def newSystem_def heapOf_def still_def)
  have ne: "[1, 2 :: nat] \<noteq> []" by simp
  have v: "clusterAt ?s [1, 2] 1 = [[1, 2]]"
    by (simp add: clusterAt_def exampleSystem_def newSystem_def exampleOptions_def cluster_eval)
  have m: "maxSprites ?s = 10"
    by (simp add: exampleSystem_def newSystem_def exampleOptions_def)
  have f: "firstFit (clusterAt ?s [1, 2]) 10 multipliers = [[1, 2]]"
    using v by (simp add: firstFit_def multipliers_def)
  from clusterToFitBudget_firstFit [OF a ne] f m have e: "clusterToFitBudget ?s = [[1, 2]]"
    by (simp only:)
  show ?thesis unfolding e f using v by simp
qed

subsection \<open>Dependence on the order of the particles\<close>

text \<open>
  C6 (as stated): the partition does not depend on the order of the input. It does:
  three particles in a row at the top of the emitter, each 0.5 from the next, with the
  threshold 5 (pair radius 0.6, cohesion radius 0.6). From the left, the first two merge
  and the third is 0.75 from their centroid; from the right, the last two merge.
\<close>

theorem clusterParticles_order_counterexample:
  "clusterParticles 100 (heapOf [(0, 0), (0.5, 0), (1, 0)]) [1, 2, 3] 5 = [[1, 2], [3]]
   \<and> clusterParticles 100 (heapOf [(0, 0), (0.5, 0), (1, 0)]) (rev [1, 2, 3]) 5 = [[3, 2], [1]]
   \<and> set (map set (clusterParticles 100 (heapOf [(0, 0), (0.5, 0), (1, 0)]) [1, 2, 3] 5))
        \<noteq> set (map set (clusterParticles 100 (heapOf [(0, 0), (0.5, 0), (1, 0)]) (rev [1, 2, 3]) 5))"
proof -
  have a: "clusterParticles 100 (heapOf [(0, 0), (0.5, 0), (1, 0)]) [1, 2, 3] 5 = [[1, 2], [3]]"
    by (simp add: cluster_eval)
  have b: "clusterParticles 100 (heapOf [(0, 0), (0.5, 0), (1, 0)]) (rev [1, 2, 3]) 5 = [[3, 2], [1]]"
    by (simp add: cluster_eval)
  have n1: "{3 :: nat} \<noteq> {3, 2}"
  proof
    assume "{3 :: nat} = {3, 2}"
    then have "(2 :: nat) \<in> {3}" by blast
    then show False by simp
  qed
  have n2: "{3 :: nat} \<noteq> {1}"
  proof
    assume "{3 :: nat} = {1}"
    then have "(3 :: nat) \<in> {1}" by blast
    then show False by simp
  qed
  have c: "set (map set [[1, 2], [3 :: nat]]) \<noteq> set (map set [[3, 2], [1]])"
  proof
    assume e: "set (map set [[1, 2], [3 :: nat]]) = set (map set [[3, 2], [1]])"
    have "{3 :: nat} \<in> set (map set [[1, 2], [3 :: nat]])" by simp
    with e have "{3 :: nat} \<in> set (map set [[3, 2], [1 :: nat]])" by (simp only:)
    then have "{3 :: nat} = {3, 2} \<or> {3 :: nat} = {1}" by simp
    with n1 n2 show False by blast
  qed
  show ?thesis unfolding a b using c by (simp only: simp_thms)
qed

text \<open>
  C6 (amended): for every reordering of the particle list, \<^verbatim>\<open>clusterParticles\<close> returns
  a partition of the same particles (each particle in exactly one cluster); which
  particles share a cluster may depend on the order.
\<close>

theorem clusterParticles_reordered:
  assumes "set ps' = set ps"
  shows "set (concat (clusterParticles H hp ps' t)) = set (concat (clusterParticles H hp ps t))
         \<and> distinct (concat (clusterParticles H hp ps' t))
         \<and> distinct (concat (clusterParticles H hp ps t))"
  using assms by (simp only: clusterParticles_set clusterParticles_distinct simp_thms)

theorem clusterParticles_reordered_witness:
  "set (concat (clusterParticles 100 (heapOf [(0, 0), (0.5, 0), (1, 0)]) [3, 2, 1] 5))
     = set (concat (clusterParticles 100 (heapOf [(0, 0), (0.5, 0), (1, 0)]) [1, 2, 3] 5))
   \<and> distinct (concat (clusterParticles 100 (heapOf [(0, 0), (0.5, 0), (1, 0)]) [3, 2, 1] 5))"
proof -
  have "set [3, 2, 1 :: nat] = set [1, 2, 3]" by auto
  from clusterParticles_reordered [OF this] show ?thesis by blast
qed

subsection \<open>The cluster count as the multiplier grows\<close>

text \<open>
  C7 (as stated): a larger multiplier never gives more clusters. It can: with the
  default merge distance 5 the four particles below form one cluster at the multiplier
  1 and two clusters at the multiplier 1.12. At 1.12 the second particle is admitted
  before the fourth, and the third particle ends in a cluster of its own: it is not
  among the candidates of any member, and the cohesion test against the centroid the
  second particle shifted would reject it as well.
\<close>

theorem cluster_count_counterexample:
  "clusterParticles 100 (heapOf [(1, 61), (3, 54), (2.5, 68), (0.5, 56.5)]) [1, 2, 3, 4] (5 * 1)
     = [[1, 4, 3, 2]]
   \<and> clusterParticles 100 (heapOf [(1, 61), (3, 54), (2.5, 68), (0.5, 56.5)]) [1, 2, 3, 4] (5 * 1.12)
     = [[1, 2, 4], [3]]
   \<and> 1 \<in> set multipliers \<and> 1.12 \<in> set multipliers \<and> (1 :: real) < 1.12
   \<and> length (clusterParticles 100 (heapOf [(1, 61), (3, 54), (2.5, 68), (0.5, 56.5)])
               [1, 2, 3, 4] (5 * 1))
        < length (clusterParticles 100 (heapOf [(1, 61), (3, 54), (2.5, 68), (0.5, 56.5)])
                    [1, 2, 3, 4] (5 * 1.12))"
proof -
  have a: "clusterParticles 100 (heapOf [(1, 61), (3, 54), (2.5, 68), (0.5, 56.5)]) [1, 2, 3, 4] (5 * 1)
     = [[1, 4, 3, 2]]"
    by (simp add: cluster_eval)
  have b: "clusterParticles 100 (heapOf [(1, 61), (3, 54), (2.5, 68), (0.5, 56.5)]) [1, 2, 3, 4] (5 * 1.12)
     = [[1, 2, 4], [3]]"
    by (simp add: cluster_eval)
  have c: "1 \<in> set multipliers \<and> 1.12 \<in> set multipliers \<and> (1 :: real) < 1.12"
    by (simp add: multipliers_def)
  show ?thesis unfolding a b using c by simp
qed

text \<open>The cohesion test of the third particle against the centroid of the particles
  1, 2 and 4 at the multiplier 1.12, and its pairwise test with the first particle.\<close>

lemma third_particle_tests:
  "centroid (heapOf [(1, 61), (3, 54), (2.5, 68), (0.5, 56.5)]) [1, 2, 4] = (3 / 2, 343 / 6)
   \<and> cohesionFar 100 (heapOf [(1, 61), (3, 54), (2.5, 68), (0.5, 56.5)]) (5 * 1.12)
         (3 / 2) (343 / 6) 3
   \<and> \<not> pairFar 100 (heapOf [(1, 61), (3, 54), (2.5, 68), (0.5, 56.5)]) (5 * 1.12) 1 3
   \<and> 3 \<notin> set (candidates (5 * 1.12)
         (buildBuckets (5 * 1.12) (heapOf [(1, 61), (3, 54), (2.5, 68), (0.5, 56.5)]) [1, 2, 3, 4])
         1 61)"
  by (simp add: centroid_def cluster_eval)

text \<open>
  C7 (amended): the cluster count is not monotone in the multiplier. At every threshold
  the clustering of a non-empty particle list has at least one cluster and at most as
  many clusters as particles.
\<close>

theorem cluster_count_bounds:
  assumes "ps \<noteq> []"
  shows "1 \<le> length (clusterParticles H hp ps t) \<and> length (clusterParticles H hp ps t) \<le> length ps"
proof -
  let ?cs = "clusterParticles H hp ps t"
  have ne: "[] \<notin> set ?cs" by (rule clusterParticles_nonempty)
  have "length cs \<le> length (concat cs)" if "[] \<notin> set cs" for cs :: "pref list list"
    using that
  proof (induction cs)
    case Nil
    then show ?case by simp
  next
    case (Cons c cs)
    then have "c \<noteq> []" by auto
    then have "1 \<le> length c" by (cases c) auto
    with Cons show ?case by auto
  qed
  from this [OF ne] have "length ?cs \<le> length (concat ?cs)" .
  also have "\<dots> = card (set (concat ?cs))"
    by (simp only: distinct_card [OF clusterParticles_distinct])
  also have "\<dots> = card (set ps)" by (simp only: clusterParticles_set)
  also have "\<dots> \<le> length ps" by (rule card_length)
  finally have up: "length ?cs \<le> length ps" .
  have "set (concat ?cs) \<noteq> {}" using assms by (simp only: clusterParticles_set) simp
  then have "?cs \<noteq> []" by auto
  then have "1 \<le> length ?cs" by (cases ?cs) auto
  with up show ?thesis by simp
qed

theorem cluster_count_bounds_witness:
  "1 \<le> length (clusterParticles 100 (heapOf [(1, 61), (3, 54), (2.5, 68), (0.5, 56.5)])
                 [1, 2, 3, 4] (5 * 1.12))
   \<and> length (clusterParticles 100 (heapOf [(1, 61), (3, 54), (2.5, 68), (0.5, 56.5)])
               [1, 2, 3, 4] (5 * 1.12)) \<le> 4"
proof -
  have "[1, 2, 3, 4 :: nat] \<noteq> []" by simp
  from cluster_count_bounds [OF this, of 100 "heapOf [(1, 61), (3, 54), (2.5, 68), (0.5, 56.5)]" "5 * 1.12"]
  show ?thesis by simp
qed

subsection \<open>The grid and the merge range\<close>

text \<open>
  C8: a pair that passes the pairwise test lies in the same or in adjacent grid cells,
  so the search of the 3 by 3 neighbourhood misses no pair in range. The code breaks
  this: the cell size is the threshold, but the pair radius is the threshold times a
  scale of up to 2.12. Two particles at height 90 of 100 (scale 1.92), 8 apart, with the
  threshold 5, pass the pairwise test (radius 9.6) and the cohesion test, lie in the
  cells 0 and 2, are not candidates of each other, and end in two clusters.
\<close>

theorem grid_misses_pair_in_range:
  "\<not> pairFar 100 (heapOf [(4, 90), (12, 90)]) 5 1 2
   \<and> \<not> cohesionFar 100 (heapOf [(4, 90), (12, 90)]) 5 4 90 2
   \<and> keyOf 5 4 90 = (0, 18) \<and> keyOf 5 12 90 = (2, 18)
   \<and> 2 \<notin> set (candidates 5 (buildBuckets 5 (heapOf [(4, 90), (12, 90)]) [1, 2]) 4 90)
   \<and> clusterParticles 100 (heapOf [(4, 90), (12, 90)]) [1, 2] 5 = [[1], [2]]"
  by (simp add: cluster_eval)

lemma physical_fields:
  "physical p = physical q \<Longrightarrow>
     p_active p = p_active q \<and> p_x p = p_x q \<and> p_y p = p_y q \<and> p_life p = p_life q
     \<and> p_vx p = p_vx q \<and> p_vy p = p_vy q \<and> p_maxLife p = p_maxLife q"
  unfolding physical_def by (cases p, cases q) simp

section \<open>Properties of a frame\<close>

subsection \<open>pickAnchor\<close>

lemma fold_anchorStep_mem:
  "fst (fold (anchorStep H hp) ps st) \<in> insert (fst st) (set ps)"
proof (induction ps arbitrary: st)
  case Nil
  then show ?case by simp
next
  case (Cons p ps)
  have "fst (anchorStep H hp p st) \<in> {p, fst st}"
    by (simp add: anchorStep_def Let_def)
  with Cons.IH [of "anchorStep H hp p st"] show ?case by auto
qed

lemma pickAnchor_mem:
  assumes "pickAnchor H hp c = Some a"
  shows "a \<in> set c"
proof (cases c)
  case Nil
  with assms show ?thesis by (simp add: pickAnchor_def)
next
  case (Cons p0 ps)
  with assms have "a = fst (fold (anchorStep H hp) c (p0, None))" by (simp add: pickAnchor_def)
  with fold_anchorStep_mem [of H hp c "(p0, None)"] Cons show ?thesis by auto
qed

lemma pickAnchor_defined: "c \<noteq> [] \<Longrightarrow> pickAnchor H hp c \<noteq> None"
  by (cases c) (simp_all add: pickAnchor_def)

subsection \<open>markMerged\<close>

lemma markMerged_fields [simp]:
  "particles (markMerged p s) = particles s"
  "groups (markMerged p s) = groups s"
  "nextId (markMerged p s) = nextId s"
  "nextSprite (markMerged p s) = nextSprite s"
  "maxSprites (markMerged p s) = maxSprites s"
  "emitterHeight (markMerged p s) = emitterHeight s"
  "spawnTimer (markMerged p s) = spawnTimer s"
  "spawnInterval (markMerged p s) = spawnInterval s"
  "singleSprites (markMerged p s) = singleSprites s"
  "rng (markMerged p s) = rng s"
  by (simp_all add: markMerged_def)

lemma markMerged_heap:
  "heap (markMerged p s) = (heap s)(p := (heap s p)\<lparr>p_merged := True\<rparr>)"
  by (simp add: markMerged_def)

lemma markMerged_physical [simp]: "physical (heap (markMerged p s) q) = physical (heap s q)"
  by (simp add: markMerged_heap physical_def)

lemma fold_markMerged_fields [simp]:
  "particles (fold markMerged ps s) = particles s"
  "groups (fold markMerged ps s) = groups s"
  "nextId (fold markMerged ps s) = nextId s"
  "nextSprite (fold markMerged ps s) = nextSprite s"
  "maxSprites (fold markMerged ps s) = maxSprites s"
  "emitterHeight (fold markMerged ps s) = emitterHeight s"
  "spawnTimer (fold markMerged ps s) = spawnTimer s"
  "spawnInterval (fold markMerged ps s) = spawnInterval s"
  "singleSprites (fold markMerged ps s) = singleSprites s"
  "rng (fold markMerged ps s) = rng s"
  by (induction ps arbitrary: s) simp_all

lemma fold_markMerged_physical [simp]:
  "physical (heap (fold markMerged ps s) q) = physical (heap s q)"
  by (induction ps arbitrary: s) simp_all

lemma fold_markMerged_merged:
  "p_merged (heap (fold markMerged ps s) q) = (q \<in> set ps \<or> p_merged (heap s q))"
  by (induction ps arbitrary: s) (auto simp: markMerged_heap)

subsection \<open>reconcileComp\<close>

lemma set_update_subset: "set (AList.update k v al) \<subseteq> insert (k, v) (set al)"
  by (induction al) auto

lemma length_update_le: "length (AList.update k v al) \<le> Suc (length al)"
  by (induction al) auto

lemma reconcileComp_skip: "length c \<le> 1 \<Longrightarrow> reconcileComp rnd c st = st"
  by (simp add: reconcileComp_def Let_def)

lemma reconcileComp_big:
  assumes "1 < length c"
  shows "\<exists>anchor. pickAnchor (emitterHeight (fst st)) (heap (fst st)) c = Some anchor
           \<and> anchor \<in> set c
           \<and> reconcileComp rnd c st =
               (fold markMerged c (fst (madeFor rnd c (fst st) anchor)),
                AList.update (keyFor c) (snd (madeFor rnd c (fst st) anchor)) (snd st))"
proof -
  from assms have "c \<noteq> []" by auto
  from pickAnchor_defined [OF this] obtain anchor
    where a: "pickAnchor (emitterHeight (fst st)) (heap (fst st)) c = Some anchor" by blast
  have "reconcileComp rnd c st =
               (fold markMerged c (fst (madeFor rnd c (fst st) anchor)),
                AList.update (keyFor c) (snd (madeFor rnd c (fst st) anchor)) (snd st))"
    using assms a by (simp add: reconcileComp_def madeFor_def Let_def)
  with a pickAnchor_mem [OF a] show ?thesis by blast
qed

lemma madeFor_fields [simp]:
  "particles (fst (madeFor rnd c s a)) = particles s"
  "heap (fst (madeFor rnd c s a)) = heap s"
  "nextId (fst (madeFor rnd c s a)) = nextId s"
  "maxSprites (fst (madeFor rnd c s a)) = maxSprites s"
  "emitterHeight (fst (madeFor rnd c s a)) = emitterHeight s"
  "spawnTimer (fst (madeFor rnd c s a)) = spawnTimer s"
  "spawnInterval (fst (madeFor rnd c s a)) = spawnInterval s"
  "singleSprites (fst (madeFor rnd c s a)) = singleSprites s"
  "g_particles (snd (madeFor rnd c s a)) = c"
  "g_anchor (snd (madeFor rnd c s a)) = a"
  by (simp_all add: madeFor_def Let_def split: option.splits)

lemma reconcileComp_step: "compsStep [c] st (reconcileComp rnd c st)"
proof (cases "1 < length c")
  case False
  then have "reconcileComp rnd c st = st" by (simp add: reconcileComp_skip)
  with False show ?thesis by (simp add: compsStep_def big_def)
next
  case True
  from reconcileComp_big [OF True, of st rnd] obtain anchor where
    an: "anchor \<in> set c" and
    eq: "reconcileComp rnd c st =
               (fold markMerged c (fst (madeFor rnd c (fst st) anchor)),
                AList.update (keyFor c) (snd (madeFor rnd c (fst st) anchor)) (snd st))"
    by blast
  have len: "length (AList.update (keyFor c) (snd (madeFor rnd c (fst st) anchor)) (snd st))
               \<le> length (snd st) + 1"
    using length_update_le [of "keyFor c" _ "snd st"] by simp
  have mem: "\<forall>kg \<in> set (AList.update (keyFor c) (snd (madeFor rnd c (fst st) anchor)) (snd st)).
               kg \<in> set (snd st) \<or> (g_particles (snd kg) = c \<and> g_anchor (snd kg) \<in> set c)"
    using set_update_subset [of "keyFor c" "snd (madeFor rnd c (fst st) anchor)" "snd st"] an
    by auto
  show ?thesis
    unfolding compsStep_def eq using True len mem
    by (simp add: fold_markMerged_merged big_def) blast
qed

lemma compsStep_trans:
  assumes "compsStep cs1 st st1" "compsStep cs2 st1 st2"
  shows "compsStep (cs1 @ cs2) st st2"
proof -
  have m: "\<forall>q. p_merged (heap (fst st2) q)
               = (p_merged (heap (fst st) q) \<or> q \<in> set (concat (filter big (cs1 @ cs2))))"
    using assms unfolding compsStep_def by auto
  have l: "length (snd st2) \<le> length (snd st) + length (filter big (cs1 @ cs2))"
    using assms unfolding compsStep_def by auto
  have g: "\<forall>kg \<in> set (snd st2). kg \<in> set (snd st)
             \<or> (g_particles (snd kg) \<in> set (filter big (cs1 @ cs2))
                 \<and> g_anchor (snd kg) \<in> set (g_particles (snd kg)))"
  proof
    fix kg assume "kg \<in> set (snd st2)"
    with assms(2) have "kg \<in> set (snd st1)
             \<or> (g_particles (snd kg) \<in> set (filter big cs2)
                 \<and> g_anchor (snd kg) \<in> set (g_particles (snd kg)))"
      unfolding compsStep_def by blast
    moreover have "kg \<in> set (snd st)
             \<or> (g_particles (snd kg) \<in> set (filter big cs1)
                 \<and> g_anchor (snd kg) \<in> set (g_particles (snd kg)))" if "kg \<in> set (snd st1)"
      using assms(1) that unfolding compsStep_def by blast
    ultimately show "kg \<in> set (snd st)
             \<or> (g_particles (snd kg) \<in> set (filter big (cs1 @ cs2))
                 \<and> g_anchor (snd kg) \<in> set (g_particles (snd kg)))"
      by auto
  qed
  have f: "particles (fst st2) = particles (fst st) \<and> nextId (fst st2) = nextId (fst st)
      \<and> maxSprites (fst st2) = maxSprites (fst st)
      \<and> emitterHeight (fst st2) = emitterHeight (fst st)
      \<and> spawnTimer (fst st2) = spawnTimer (fst st)
      \<and> spawnInterval (fst st2) = spawnInterval (fst st)
      \<and> singleSprites (fst st2) = singleSprites (fst st)
      \<and> (\<forall>q. physical (heap (fst st2) q) = physical (heap (fst st) q))"
    using assms unfolding compsStep_def by simp
  from f m l g show ?thesis unfolding compsStep_def by blast
qed

lemma fold_reconcileComp_step: "compsStep cs st (fold (reconcileComp rnd) cs st)"
proof (induction cs arbitrary: st)
  case Nil
  show ?case by (simp add: compsStep_def)
next
  case (Cons c cs)
  from compsStep_trans [OF reconcileComp_step [of c st rnd] Cons.IH [of "reconcileComp rnd c st"]]
  show ?case by simp
qed

subsection \<open>reconcileVisuals\<close>

lemma fold_reset_heap:
  "fold (\<lambda>p hp. hp(p := (hp p)\<lparr>p_merged := False\<rparr>)) ps hp q
     = (if q \<in> set ps then (hp q)\<lparr>p_merged := False\<rparr> else hp q)"
  by (induction ps arbitrary: hp) auto

lemma resetMerged_fields [simp]:
  "particles (resetMerged s) = particles s"
  "groups (resetMerged s) = groups s"
  "sprites (resetMerged s) = sprites s"
  "nextId (resetMerged s) = nextId s"
  "nextSprite (resetMerged s) = nextSprite s"
  "maxSprites (resetMerged s) = maxSprites s"
  "emitterHeight (resetMerged s) = emitterHeight s"
  "spawnTimer (resetMerged s) = spawnTimer s"
  "spawnInterval (resetMerged s) = spawnInterval s"
  "singleSprites (resetMerged s) = singleSprites s"
  "rng (resetMerged s) = rng s"
  by (simp_all add: resetMerged_def)

lemma resetMerged_heap:
  "heap (resetMerged s) q = (if q \<in> set (particles s) then (heap s q)\<lparr>p_merged := False\<rparr> else heap s q)"
  by (simp add: resetMerged_def fold_reset_heap)

lemma showSingle_fields [simp]:
  "particles (showSingle p s) = particles s"
  "groups (showSingle p s) = groups s"
  "heap (showSingle p s) = heap s"
  "nextId (showSingle p s) = nextId s"
  "nextSprite (showSingle p s) = nextSprite s"
  "maxSprites (showSingle p s) = maxSprites s"
  "emitterHeight (showSingle p s) = emitterHeight s"
  "spawnTimer (showSingle p s) = spawnTimer s"
  "spawnInterval (showSingle p s) = spawnInterval s"
  "singleSprites (showSingle p s) = singleSprites s"
  "rng (showSingle p s) = rng s"
  by (simp_all add: showSingle_def split: option.splits)

lemma fold_showSingle_fields [simp]:
  "particles (fold showSingle ps s) = particles s"
  "groups (fold showSingle ps s) = groups s"
  "heap (fold showSingle ps s) = heap s"
  "nextId (fold showSingle ps s) = nextId s"
  "nextSprite (fold showSingle ps s) = nextSprite s"
  "maxSprites (fold showSingle ps s) = maxSprites s"
  "emitterHeight (fold showSingle ps s) = emitterHeight s"
  "spawnTimer (fold showSingle ps s) = spawnTimer s"
  "spawnInterval (fold showSingle ps s) = spawnInterval s"
  "singleSprites (fold showSingle ps s) = singleSprites s"
  "rng (fold showSingle ps s) = rng s"
  by (induction ps arbitrary: s) simp_all

lemma reconcileVisuals_reconciled: "reconciled cs s (reconcileVisuals rnd cs s)"
proof -
  let ?st = "fold (reconcileComp rnd) cs (resetMerged s, [])"
  have st: "compsStep cs (resetMerged s, []) ?st" by (rule fold_reconcileComp_step)
  have ph: "physical (heap (resetMerged s) q) = physical (heap s q)" for q
    by (simp add: resetMerged_heap physical_def)
  have mg: "q \<in> set (particles s) \<Longrightarrow> \<not> p_merged (heap (resetMerged s) q)" for q
    by (simp add: resetMerged_heap)
  have eq: "reconcileVisuals rnd cs s =
      fold showSingle (particles (fst ?st))
        (fst ?st\<lparr>sprites := fold (dropStale (snd ?st)) (groups (fst ?st)) (sprites (fst ?st)),
                  groups := snd ?st\<rparr>)"
    by (simp add: reconcileVisuals_def Let_def)
  show ?thesis
    unfolding reconciled_def eq using st ph mg
    by (simp add: compsStep_def)
qed

subsection \<open>clusterToFitBudget\<close>

lemma fitLoop_cases:
  "fitLoop cp maxS ms chosen = chosen \<or> (\<exists>m \<in> set ms. fitLoop cp maxS ms chosen = cp m)"
proof (induction ms arbitrary: chosen)
  case Nil
  then show ?case by simp
next
  case (Cons m ms)
  from Cons.IH [of "cp m"] show ?case by (auto simp: Let_def)
qed

lemma clusterToFitBudget_partition:
  "distinct (concat (clusterToFitBudget s))
   \<and> set (concat (clusterToFitBudget s)) = set (filter (\<lambda>p. p_active (heap s p)) (particles s))
   \<and> [] \<notin> set (clusterToFitBudget s)"
proof (cases "filter (\<lambda>p. p_active (heap s p)) (particles s) = []")
  case True
  then show ?thesis by (simp add: clusterToFitBudget_def)
next
  case False
  let ?a = "filter (\<lambda>p. p_active (heap s p)) (particles s)"
  from False have eq: "clusterToFitBudget s = fitLoop (clusterAt s ?a) (maxSprites s) multipliers []"
    by (simp add: clusterToFitBudget_def Let_def)
  have ne: "multipliers \<noteq> []" by (simp add: multipliers_def)
  from fitLoop_firstFit [OF ne] fitLoop_cases [of "clusterAt s ?a" "maxSprites s" multipliers "[]"]
  obtain m where "clusterToFitBudget s = clusterAt s ?a m \<or> clusterToFitBudget s = []"
    unfolding eq by blast
  moreover have "clusterToFitBudget s \<noteq> []"
  proof -
    have "fitLoop cp mx (m # ms) ch \<noteq> []" if "\<And>m. cp m \<noteq> []" for cp mx m ms ch
      using that
    proof (induction ms arbitrary: m ch)
      case Nil
      then show ?case by (simp add: Let_def)
    next
      case (Cons m' ms)
      from Cons.IH [of m' "cp m"] Cons.prems show ?case by (simp add: Let_def)
    qed
    moreover have "clusterAt s ?a m \<noteq> []" for m
    proof
      assume "clusterAt s ?a m = []"
      then have "set (concat (clusterParticles (emitterHeight s) (heap s) ?a (baseMergeDistance s * m))) = {}"
        by (simp add: clusterAt_def)
      with False show False by (simp only: clusterParticles_set) simp
    qed
    ultimately show ?thesis unfolding eq multipliers_def by blast
  qed
  ultimately have "clusterToFitBudget s = clusterAt s ?a m" by blast
  then show ?thesis
    by (simp only: clusterAt_def clusterParticles_distinct clusterParticles_set
        clusterParticles_nonempty simp_thms)
qed

subsection \<open>The particle updates and the culling\<close>

lemma updateParticle_fields [simp]:
  "particles (updateParticle rnd dt p s) = particles s"
  "groups (updateParticle rnd dt p s) = groups s"
  "sprites (updateParticle rnd dt p s) = sprites s"
  "singleSprites (updateParticle rnd dt p s) = singleSprites s"
  "nextId (updateParticle rnd dt p s) = nextId s"
  "nextSprite (updateParticle rnd dt p s) = nextSprite s"
  "maxSprites (updateParticle rnd dt p s) = maxSprites s"
  "emitterHeight (updateParticle rnd dt p s) = emitterHeight s"
  "spawnTimer (updateParticle rnd dt p s) = spawnTimer s"
  "spawnInterval (updateParticle rnd dt p s) = spawnInterval s"
  by (simp_all add: updateParticle_def Let_def)

lemma fold_updateParticle_fields [simp]:
  "particles (fold (updateParticle rnd dt) ps s) = particles s"
  "groups (fold (updateParticle rnd dt) ps s) = groups s"
  "sprites (fold (updateParticle rnd dt) ps s) = sprites s"
  "singleSprites (fold (updateParticle rnd dt) ps s) = singleSprites s"
  "nextId (fold (updateParticle rnd dt) ps s) = nextId s"
  "nextSprite (fold (updateParticle rnd dt) ps s) = nextSprite s"
  "maxSprites (fold (updateParticle rnd dt) ps s) = maxSprites s"
  "emitterHeight (fold (updateParticle rnd dt) ps s) = emitterHeight s"
  "spawnTimer (fold (updateParticle rnd dt) ps s) = spawnTimer s"
  "spawnInterval (fold (updateParticle rnd dt) ps s) = spawnInterval s"
  by (induction ps arbitrary: s) simp_all

lemma fold_updateParticle_other:
  "q \<notin> set ps \<Longrightarrow> heap (fold (updateParticle rnd dt) ps s) q = heap s q"
proof (induction ps arbitrary: s)
  case Nil
  then show ?case by simp
next
  case (Cons p ps)
  then have "q \<notin> set ps" "q \<noteq> p" by auto
  from Cons.IH [OF this(1), of "updateParticle rnd dt p s"] this(2)
  show ?case by (simp add: updateParticle_def Let_def)
qed

lemma updateParticle_heap:
  "heap (updateParticle rnd dt p s) q
     = (if q = p then fst (Particle_update rnd (rng s) dt (heap s p)) else heap s q)"
  by (simp add: updateParticle_def Let_def)

lemma fold_updateParticle_heap:
  assumes "distinct ps" "q \<in> set ps"
  shows "\<exists>i. heap (fold (updateParticle rnd dt) ps s) q = fst (Particle_update rnd i dt (heap s q))"
  using assms
proof (induction ps arbitrary: s)
  case Nil
  then show ?case by simp
next
  case (Cons p ps)
  let ?s1 = "updateParticle rnd dt p s"
  have f: "fold (updateParticle rnd dt) (p # ps) s = fold (updateParticle rnd dt) ps ?s1" by simp
  show ?case
  proof (cases "q = p")
    case True
    with Cons.prems have "q \<notin> set ps" by simp
    from fold_updateParticle_other [OF this, of rnd dt ?s1]
    have "heap (fold (updateParticle rnd dt) ps ?s1) q = heap ?s1 q" .
    also have "\<dots> = fst (Particle_update rnd (rng s) dt (heap s q))"
      using True by (simp add: updateParticle_heap)
    finally show ?thesis unfolding f by blast
  next
    case False
    with Cons.prems have "distinct ps" "q \<in> set ps" by simp_all
    from Cons.IH [OF this, of ?s1] obtain i where
      "heap (fold (updateParticle rnd dt) ps ?s1) q = fst (Particle_update rnd i dt (heap ?s1 q))"
      by blast
    moreover have "heap ?s1 q = heap s q" using False by (simp add: updateParticle_heap)
    ultimately show ?thesis unfolding f by auto
  qed
qed

lemma cullAt_fields [simp]:
  "heap (cullAt i s) = heap s"
  "groups (cullAt i s) = groups s"
  "nextId (cullAt i s) = nextId s"
  "nextSprite (cullAt i s) = nextSprite s"
  "maxSprites (cullAt i s) = maxSprites s"
  "emitterHeight (cullAt i s) = emitterHeight s"
  "spawnTimer (cullAt i s) = spawnTimer s"
  "spawnInterval (cullAt i s) = spawnInterval s"
  by (simp_all add: cullAt_def Let_def)

lemma cullLoop_fields [simp]:
  "heap (cullLoop i s) = heap s"
  "groups (cullLoop i s) = groups s"
  "nextId (cullLoop i s) = nextId s"
  "nextSprite (cullLoop i s) = nextSprite s"
  "maxSprites (cullLoop i s) = maxSprites s"
  "emitterHeight (cullLoop i s) = emitterHeight s"
  "spawnTimer (cullLoop i s) = spawnTimer s"
  "spawnInterval (cullLoop i s) = spawnInterval s"
  by (induction i arbitrary: s) simp_all

lemma cullLoop_particles:
  "i \<le> length (particles s) \<Longrightarrow>
   particles (cullLoop i s)
     = filter (\<lambda>p. p_active (heap s p)) (take i (particles s)) @ drop i (particles s)"
proof (induction i arbitrary: s)
  case 0
  then show ?case by simp
next
  case (Suc i)
  let ?ps = "particles s"
  from Suc.prems have lt: "i < length ?ps" by simp
  show ?case
  proof (cases "p_active (heap s (?ps ! i))")
    case True
    with lt have "cullAt i s = s" by (simp add: cullAt_def Let_def)
    with Suc.IH [of s] lt True show ?thesis
      by (simp add: take_Suc_conv_app_nth Cons_nth_drop_Suc)
  next
    case False
    with lt have ps: "particles (cullAt i s) = take i ?ps @ drop (Suc i) ?ps"
      by (simp add: cullAt_def Let_def)
    from lt have "i \<le> length (particles (cullAt i s))" by (simp add: ps)
    from Suc.IH [OF this] lt False show ?thesis
      by (simp add: ps take_Suc_conv_app_nth)
  qed
qed

lemma cullDeadParticles_particles:
  "particles (cullDeadParticles s) = filter (\<lambda>p. p_active (heap s p)) (particles s)"
  by (simp add: cullDeadParticles_def cullLoop_particles)

lemma cullDeadParticles_fields [simp]:
  "heap (cullDeadParticles s) = heap s"
  "groups (cullDeadParticles s) = groups s"
  "nextId (cullDeadParticles s) = nextId s"
  "nextSprite (cullDeadParticles s) = nextSprite s"
  "maxSprites (cullDeadParticles s) = maxSprites s"
  "emitterHeight (cullDeadParticles s) = emitterHeight s"
  "spawnTimer (cullDeadParticles s) = spawnTimer s"
  "spawnInterval (cullDeadParticles s) = spawnInterval s"
  by (simp_all add: cullDeadParticles_def)

lemma simulate_fields [simp]:
  "groups (simulate rnd dt s) = groups s"
  "nextId (simulate rnd dt s) = nextId s"
  "nextSprite (simulate rnd dt s) = nextSprite s"
  "maxSprites (simulate rnd dt s) = maxSprites s"
  "emitterHeight (simulate rnd dt s) = emitterHeight s"
  "spawnTimer (simulate rnd dt s) = spawnTimer s + dt"
  "spawnInterval (simulate rnd dt s) = spawnInterval s"
  by (simp_all add: simulate_def Let_def)

lemma simulate_particles:
  "particles (simulate rnd dt s)
     = filter (\<lambda>p. p_active (heap (simulate rnd dt s) p)) (particles s)"
  by (simp add: simulate_def Let_def cullDeadParticles_particles)

lemma simulate_heap:
  assumes "distinct (particles s)" "q \<in> set (particles s)"
  shows "\<exists>i. heap (simulate rnd dt s) q = fst (Particle_update rnd i dt (heap s q))"
  using fold_updateParticle_heap [OF assms, of rnd dt "s\<lparr>spawnTimer := spawnTimer s + dt\<rparr>"]
  by (simp add: simulate_def Let_def)

subsection \<open>Spawning\<close>

lemma spawnOne_fields [simp]:
  "particles (spawnOne rnd s) = particles s @ [nextId s]"
  "nextId (spawnOne rnd s) = nextId s + 1"
  "groups (spawnOne rnd s) = groups s"
  "maxSprites (spawnOne rnd s) = maxSprites s"
  "emitterHeight (spawnOne rnd s) = emitterHeight s"
  "spawnTimer (spawnOne rnd s) = spawnTimer s"
  "spawnInterval (spawnOne rnd s) = spawnInterval s"
  by (simp_all add: spawnOne_def Let_def)

lemma spawnOne_heap_other: "q \<noteq> nextId s \<Longrightarrow> heap (spawnOne rnd s) q = heap s q"
  by (simp add: spawnOne_def Let_def)

lemma spawnOne_heap_new:
  "p_active (heap (spawnOne rnd s) (nextId s)) \<and> \<not> p_merged (heap (spawnOne rnd s) (nextId s))"
  by (simp add: spawnOne_def Let_def newParticle_def)

lemma maybeSpawn_fields [simp]:
  "groups (maybeSpawn rnd s) = groups s"
  "maxSprites (maybeSpawn rnd s) = maxSprites s"
  "emitterHeight (maybeSpawn rnd s) = emitterHeight s"
  by (simp_all add: maybeSpawn_def Let_def)

lemma maybeSpawn_cases: "spawned s (maybeSpawn rnd s) \<or> notSpawned s (maybeSpawn rnd s)"
proof (cases "spawnTimer s < spawnInterval s")
  case True
  then show ?thesis by (simp add: maybeSpawn_def notSpawned_def)
next
  case False
  show ?thesis
  proof (cases "real (getVisualSpriteCount s) < maxSprites s")
    case True
    let ?s1 = "s\<lparr>spawnInterval :=
        (if real (getVisualSpriteCount s) > maxSprites s - 3 then 0.25 else 0.15)\<rparr>"
    have eq: "maybeSpawn rnd s = (spawnOne rnd ?s1)\<lparr>spawnTimer := 0\<rparr>"
      using False True by (simp add: maybeSpawn_def Let_def)
    have n: "nextId ?s1 = nextId s" "particles ?s1 = particles s" "heap ?s1 = heap s" by simp_all
    have "spawned s (maybeSpawn rnd s)"
      unfolding spawned_def eq
      using True spawnOne_heap_new [of rnd ?s1] spawnOne_heap_other [of _ ?s1 rnd]
      by (simp add: n)
    then show ?thesis ..
  next
    case nf: False
    with False have "maybeSpawn rnd s = s\<lparr>spawnTimer := 0\<rparr>"
      by (simp add: maybeSpawn_def Let_def)
    then show ?thesis by (simp add: notSpawned_def)
  qed
qed

lemma maybeSpawn_active: "p_active (heap s q) \<Longrightarrow> p_active (heap (maybeSpawn rnd s) q)"
  using maybeSpawn_cases [of s rnd]
  by (cases "q = nextId s") (auto simp: spawned_def notSpawned_def)

subsection \<open>The sprite updates\<close>

lemma updateSingleSprites_fields [simp]:
  "particles (updateSingleSprites s) = particles s"
  "groups (updateSingleSprites s) = groups s"
  "heap (updateSingleSprites s) = heap s"
  "nextId (updateSingleSprites s) = nextId s"
  "nextSprite (updateSingleSprites s) = nextSprite s"
  "maxSprites (updateSingleSprites s) = maxSprites s"
  "emitterHeight (updateSingleSprites s) = emitterHeight s"
  "spawnTimer (updateSingleSprites s) = spawnTimer s"
  "spawnInterval (updateSingleSprites s) = spawnInterval s"
  "singleSprites (updateSingleSprites s) = singleSprites s"
  by (simp_all add: updateSingleSprites_def)

lemma updateGroup_alive:
  assumes "groupAlive (heap (fst st)) (snd kg)"
  shows "\<exists>spr. updateGroup kg st = ((fst st)\<lparr>sprites := spr\<rparr>, snd st)"
proof -
  from assms have a: "p_active (heap (fst st) (g_anchor (snd kg)))"
    and m: "list_all (\<lambda>p. p_active (heap (fst st) p)) (g_particles (snd kg))"
    and ne: "g_particles (snd kg) \<noteq> []"
    by (simp_all add: groupAlive_def)
  from m have "filter (\<lambda>p. p_active (heap (fst st) p)) (g_particles (snd kg)) = g_particles (snd kg)"
    by (simp add: list_all_iff)
  with ne have n: "length (filter (\<lambda>p. p_active (heap (fst st) p)) (g_particles (snd kg))) \<noteq> 0"
    by simp
  show ?thesis
    unfolding updateGroup_def Let_def using a n by (simp only: simp_thms if_False if_True) blast
qed

lemma fold_updateGroup_alive:
  assumes "\<forall>kg \<in> set gs. groupAlive (heap (fst st)) (snd kg)"
  shows "\<exists>spr. fold updateGroup gs st = ((fst st)\<lparr>sprites := spr\<rparr>, snd st)"
  using assms
proof (induction gs arbitrary: st)
  case Nil
  have "st = ((fst st)\<lparr>sprites := sprites (fst st)\<rparr>, snd st)" by simp
  then show ?case by (simp only: fold_Nil id_apply) blast
next
  case (Cons g gs)
  from Cons.prems have "groupAlive (heap (fst st)) (snd g)" by simp
  from updateGroup_alive [OF this] obtain spr where
    u: "updateGroup g st = ((fst st)\<lparr>sprites := spr\<rparr>, snd st)" by blast
  have "\<forall>kg \<in> set gs. groupAlive (heap (fst (updateGroup g st))) (snd kg)"
    using Cons.prems by (simp add: u)
  from Cons.IH [OF this] obtain spr' where
    "fold updateGroup gs (updateGroup g st) = ((fst (updateGroup g st))\<lparr>sprites := spr'\<rparr>, snd (updateGroup g st))"
    by blast
  then have "fold updateGroup (g # gs) st = ((fst st)\<lparr>sprites := spr'\<rparr>, snd st)"
    by (simp add: u)
  then show ?case by blast
qed

lemma updateGroupSprites_log_alive:
  assumes "\<forall>kg \<in> set (groups s). groupAlive (heap s) (snd kg)"
  shows "\<exists>spr. updateGroupSprites_log s = (s\<lparr>sprites := spr\<rparr>, [])"
  using fold_updateGroup_alive [of "groups s" "(s, [])"] assms
  by (simp add: updateGroupSprites_log_def)

subsection \<open>The groups after a frame\<close>

lemma clusters_active:
  assumes "c \<in> set (clusterToFitBudget s)" "p \<in> set c"
  shows "p_active (heap s p)"
proof -
  from assms have "p \<in> set (concat (clusterToFitBudget s))" by auto
  moreover have "set (concat (clusterToFitBudget s))
      = set (filter (\<lambda>p. p_active (heap s p)) (particles s))"
    using clusterToFitBudget_partition [of s] by blast
  ultimately have "p \<in> set (filter (\<lambda>p. p_active (heap s p)) (particles s))"
    by (simp only:)
  then show ?thesis by simp
qed

lemma reconciled_alive:
  assumes "reconciled cs s s'" "\<forall>c \<in> set cs. \<forall>p \<in> set c. p_active (heap s p)"
  shows "\<forall>kg \<in> set (groups s'). groupAlive (heap s') (snd kg)"
proof
  fix kg assume kg: "kg \<in> set (groups s')"
  with assms(1) have c: "g_particles (snd kg) \<in> set cs" and b: "big (g_particles (snd kg))"
    and a: "g_anchor (snd kg) \<in> set (g_particles (snd kg))"
    unfolding reconciled_def by auto
  have act: "p_active (heap s' q) = p_active (heap s q)" for q
    using assms(1) physical_fields [of "heap s' q" "heap s q"] unfolding reconciled_def by blast
  from c assms(2) have "\<forall>p \<in> set (g_particles (snd kg)). p_active (heap s' p)"
    by (simp add: act)
  with a b show "groupAlive (heap s') (snd kg)"
    by (auto simp: groupAlive_def list_all_iff big_def)
qed

lemma beforeGroupSprites_alive:
  "\<forall>kg \<in> set (groups (beforeGroupSprites rnd dt s)).
     groupAlive (heap (beforeGroupSprites rnd dt s)) (snd kg)"
proof -
  let ?s2 = "simulate rnd dt s"
  let ?cs = "clusterToFitBudget ?s2"
  let ?s3 = "reconcileVisuals rnd ?cs ?s2"
  let ?s4 = "maybeSpawn rnd ?s3"
  have eq: "beforeGroupSprites rnd dt s = updateSingleSprites ?s4"
    by (simp add: beforeGroupSprites_def Let_def)
  have "\<forall>c \<in> set ?cs. \<forall>p \<in> set c. p_active (heap ?s2 p)"
    using clusters_active by blast
  from reconciled_alive [OF reconcileVisuals_reconciled this]
  have a3: "\<forall>kg \<in> set (groups ?s3). groupAlive (heap ?s3) (snd kg)" .
  have "groupAlive (heap ?s4) g" if "groupAlive (heap ?s3) g" for g
    using that maybeSpawn_active [of ?s3 _ rnd] by (auto simp: groupAlive_def list_all_iff)
  with a3 show ?thesis unfolding eq by simp
qed

text \<open>
  C10: at the end of every \<^verbatim>\<open>update\<close>, from any state, every particle stored in a
  tracked group is active; and the call of \<^verbatim>\<open>updateGroupSprites\<close> in that \<^verbatim>\<open>update\<close>
  takes neither the branch that reselects a dead anchor nor the branch that removes a
  group without survivors: its log of exceptional branches is empty.
\<close>

theorem groups_alive_after_update:
  "list_all (\<lambda>kg. list_all (\<lambda>p. p_active (heap (update rnd dt s) p)) (g_particles (snd kg)))
     (groups (update rnd dt s))
   \<and> snd (updateGroupSprites_log (beforeGroupSprites rnd dt s)) = []"
proof -
  let ?b = "beforeGroupSprites rnd dt s"
  from updateGroupSprites_log_alive [OF beforeGroupSprites_alive] obtain spr where
    l: "updateGroupSprites_log ?b = (?b\<lparr>sprites := spr\<rparr>, [])" by blast
  then have u: "update rnd dt s = ?b\<lparr>sprites := spr\<rparr>"
    by (simp add: update_def updateGroupSprites_def)
  from beforeGroupSprites_alive [of rnd dt s]
  have "list_all (\<lambda>kg. list_all (\<lambda>p. p_active (heap ?b p)) (g_particles (snd kg))) (groups ?b)"
    by (simp add: groupAlive_def list_all_iff)
  with l u show ?thesis by simp
qed

subsection \<open>The budget\<close>

lemma length_filter_imp:
  "(\<And>x. P x \<Longrightarrow> Q x) \<Longrightarrow> length (filter P xs) \<le> length (filter Q xs)"
  by (induction xs) (auto simp: le_SucI)

lemma visualCount_le: "visualCount s \<le> unmergedCount s + length (groups s)"
proof -
  have "visibleSingles s \<le> unmergedCount s"
    unfolding visibleSingles_def unmergedCount_def
    by (rule length_filter_imp) simp
  moreover have "attachedGroups s \<le> length (groups s)"
    by (simp add: attachedGroups_def)
  ultimately show ?thesis by (simp add: visualCount_def)
qed

lemma length_le_concat:
  "[] \<notin> set cs \<Longrightarrow> length cs \<le> length (concat cs)"
proof (induction cs)
  case Nil
  then show ?case by simp
next
  case (Cons c cs)
  then have "c \<noteq> []" by auto
  then have "1 \<le> length c" by (cases c) auto
  with Cons show ?case by auto
qed

lemma distinct_concat_filter:
  "distinct (concat cs) \<Longrightarrow> distinct (concat (filter P cs))"
  by (induction cs) auto

lemma length_filter_mem:
  assumes "distinct ps" "distinct B" "set B \<subseteq> set ps"
  shows "length (filter (\<lambda>q. q \<in> set B) ps) = length B"
proof -
  have "length (filter (\<lambda>q. q \<in> set B) ps) = card ({q. q \<in> set B} \<inter> set ps)"
    using assms(1) by (rule distinct_length_filter)
  also have "{q. q \<in> set B} \<inter> set ps = set B" using assms(3) by auto
  also have "card (set B) = length B" using assms(2) by (rule distinct_card)
  finally show ?thesis .
qed

lemma reconciled_count:
  assumes r: "reconciled cs s s'" and d: "distinct (particles s)"
    and c: "set (concat cs) = set (particles s)" and dc: "distinct (concat cs)"
  shows "unmergedCount s' + length (groups s') \<le> length (particles s)"
proof -
  let ?ps = "particles s"
  let ?B = "concat (filter big cs)"
  have dB: "distinct ?B" by (rule distinct_concat_filter [OF dc])
  have sB: "set ?B \<subseteq> set ?ps" using c by auto
  from r have ps: "particles s' = ?ps"
    and mg: "\<forall>q \<in> set ?ps. p_merged (heap s' q) = (q \<in> set ?B)"
    and lg: "length (groups s') \<le> length (filter big cs)"
    unfolding reconciled_def by blast+
  have "unmergedCount s' = length (filter (\<lambda>q. \<not> p_merged (heap s' q)) ?ps)"
    by (simp add: unmergedCount_def ps)
  also have "\<dots> = length (filter (\<lambda>q. \<not> q \<in> set ?B) ?ps)"
    using mg by (intro arg_cong [where f = length] filter_cong) auto
  finally have u: "unmergedCount s' = length (filter (\<lambda>q. \<not> q \<in> set ?B) ?ps)" .
  have "[] \<notin> set (filter big cs)" by (auto simp: big_def)
  from length_le_concat [OF this] lg have g: "length (groups s') \<le> length ?B" by simp
  have "length (filter (\<lambda>q. q \<in> set ?B) ?ps) + length (filter (\<lambda>q. \<not> q \<in> set ?B) ?ps)
          = length ?ps"
    by (rule sum_length_filter_compl)
  with length_filter_mem [OF d dB sB] u g show ?thesis by simp
qed

lemma budgetInv_update:
  assumes "budgetInv n s"
  shows "budgetInv n (update rnd dt s)"
proof -
  let ?s2 = "simulate rnd dt s"
  let ?cs = "clusterToFitBudget ?s2"
  let ?s3 = "reconcileVisuals rnd ?cs ?s2"
  let ?s4 = "maybeSpawn rnd ?s3"
  let ?b = "beforeGroupSprites rnd dt s"
  have b: "?b = updateSingleSprites ?s4" by (simp add: beforeGroupSprites_def Let_def)
  from updateGroupSprites_log_alive [OF beforeGroupSprites_alive] obtain spr where
    "updateGroupSprites_log ?b = (?b\<lparr>sprites := spr\<rparr>, [])" by blast
  then have u: "update rnd dt s = ?b\<lparr>sprites := spr\<rparr>"
    by (simp add: update_def updateGroupSprites_def)
  from assms have mx: "maxSprites s = real n" and d: "distinct (particles s)"
    and lt: "\<forall>p \<in> set (particles s). p < nextId s" and le: "length (particles s) \<le> n"
    by (simp_all add: budgetInv_def)
  have p2: "particles ?s2 = filter (\<lambda>p. p_active (heap ?s2 p)) (particles s)"
    by (rule simulate_particles)
  have d2: "distinct (particles ?s2)" using d by (subst p2) simp
  have a2: "\<forall>p \<in> set (particles ?s2). p_active (heap ?s2 p)" by (subst p2) simp
  have l2: "length (particles ?s2) \<le> n"
    by (subst p2) (rule le_trans [OF length_filter_le le])
  have lt2: "\<forall>p \<in> set (particles ?s2). p < nextId s" using lt by (subst p2) simp
  have f2: "filter (\<lambda>p. p_active (heap ?s2 p)) (particles ?s2) = particles ?s2"
    using a2 by (simp add: filter_id_conv)
  from clusterToFitBudget_partition [of ?s2]
  have dc: "distinct (concat ?cs)" and sc: "set (concat ?cs) = set (particles ?s2)"
    unfolding f2 by blast+
  have r: "reconciled ?cs ?s2 ?s3" by (rule reconcileVisuals_reconciled)
  from reconciled_count [OF r d2 sc dc]
  have c3: "unmergedCount ?s3 + length (groups ?s3) \<le> length (particles ?s2)" .
  from r have p3: "particles ?s3 = particles ?s2" and n3: "nextId ?s3 = nextId s"
    and m3: "maxSprites ?s3 = real n"
    and ph: "\<forall>q. physical (heap ?s3 q) = physical (heap ?s2 q)"
    using mx unfolding reconciled_def by simp_all
  have a3: "\<forall>p \<in> set (particles ?s3). p_active (heap ?s3 p)"
    using a2 ph physical_fields [of "heap ?s3 _" "heap ?s2 _"] by (simp add: p3)
  have inv4: "maxSprites ?s4 = real n \<and> distinct (particles ?s4)
      \<and> (\<forall>p \<in> set (particles ?s4). p < nextId ?s4)
      \<and> length (particles ?s4) \<le> n
      \<and> unmergedCount ?s4 + length (groups ?s4) \<le> n"
  proof -
    from maybeSpawn_cases [of ?s3 rnd] show ?thesis
    proof
      assume sp: "spawned ?s3 ?s4"
      then have vis: "real (getVisualSpriteCount ?s3) < maxSprites ?s3"
        and p4: "particles ?s4 = particles ?s3 @ [nextId ?s3]"
        and n4: "nextId ?s4 = nextId ?s3 + 1"
        and um: "\<not> p_merged (heap ?s4 (nextId ?s3))"
        and ot: "\<forall>q. q \<noteq> nextId ?s3 \<longrightarrow> heap ?s4 q = heap ?s3 q"
        by (simp_all add: spawned_def)
      have "filter (\<lambda>p. p_active (heap ?s3 p)) (particles ?s3) = particles ?s3"
        using a3 by (simp add: filter_id_conv)
      then have "getVisualSpriteCount ?s3 = length (particles ?s3) + length (groups ?s3)"
        by (simp add: getVisualSpriteCount_def)
      with vis m3 have room: "length (particles ?s3) + length (groups ?s3) < n" by simp
      have fresh: "nextId ?s3 \<notin> set (particles ?s3)" using lt2 by (auto simp: p3 n3)
      have "unmergedCount ?s4 \<le> length (particles ?s4)" by (simp add: unmergedCount_def)
      with room have cnt: "unmergedCount ?s4 + length (groups ?s4) \<le> n" by (simp add: p4)
      have "distinct (particles ?s4)" using d2 fresh by (simp add: p4 p3)
      moreover have "\<forall>p \<in> set (particles ?s4). p < nextId ?s4"
        using lt2 by (auto simp: p4 n4 p3 n3)
      moreover have "length (particles ?s4) \<le> n" using room by (simp add: p4)
      ultimately show ?thesis using cnt m3 by simp
    next
      assume ns: "notSpawned ?s3 ?s4"
      then have p4: "particles ?s4 = particles ?s3" and n4: "nextId ?s4 = nextId ?s3"
        and h4: "heap ?s4 = heap ?s3"
        by (simp_all add: notSpawned_def)
      have "unmergedCount ?s4 = unmergedCount ?s3" by (simp add: unmergedCount_def p4 h4)
      with c3 l2 have "unmergedCount ?s4 + length (groups ?s4) \<le> n" by simp
      with d2 lt2 l2 m3 show ?thesis by (simp add: p4 n4 p3 n3)
    qed
  qed
  have uc: "unmergedCount (update rnd dt s) = unmergedCount ?s4"
    by (simp add: u b unmergedCount_def)
  from inv4 show ?thesis
    unfolding budgetInv_def uc by (simp add: u b)
qed

lemma budgetInv_fresh:
  "o_max opts = real n \<Longrightarrow> budgetInv n (newSystem opts hp spr nid nsp r)"
  by (simp add: budgetInv_def newSystem_def unmergedCount_def)

lemma reachable_budgetInv:
  assumes "reachable rnd opts s" "o_max opts = real n"
  shows "budgetInv n s"
  using assms
proof (induction rule: reachable.induct)
  case (fresh hp spr nid nsp r)
  then show ?case by (rule budgetInv_fresh)
next
  case (frame s dt)
  then show ?case by (simp add: budgetInv_update)
qed

text \<open>
  C1 (amended): in every state a system whose budget is a whole number \<open>n\<close> of sprites
  (\<open>o_max opts = real n\<close>) reaches from the fresh system through calls of \<^verbatim>\<open>update\<close>,
  with any time steps and any random stream, the number of visible draw primitives is
  at most \<open>n\<close>.
\<close>

theorem visual_budget:
  assumes "reachable rnd opts s" "o_max opts = real n"
  shows "visualCount s \<le> n"
proof -
  from reachable_budgetInv [OF assms] have "unmergedCount s + length (groups s) \<le> n"
    by (simp add: budgetInv_def)
  with visualCount_le [of s] show ?thesis by simp
qed

subsection \<open>A frame with any time step\<close>

lemma update_as_spawn:
  "\<exists>spr. update rnd dt s
     = (updateSingleSprites (maybeSpawn rnd
          (reconcileVisuals rnd (clusterToFitBudget (simulate rnd dt s)) (simulate rnd dt s))))
       \<lparr>sprites := spr\<rparr>"
proof -
  let ?b = "beforeGroupSprites rnd dt s"
  from updateGroupSprites_log_alive [OF beforeGroupSprites_alive] obtain spr where
    "updateGroupSprites_log ?b = (?b\<lparr>sprites := spr\<rparr>, [])" by blast
  then have "update rnd dt s = ?b\<lparr>sprites := spr\<rparr>"
    by (simp add: update_def updateGroupSprites_def)
  then show ?thesis by (auto simp: beforeGroupSprites_def Let_def)
qed

lemma maybeSpawn_spawnTimer:
  "spawnTimer (maybeSpawn rnd s) = (if spawnTimer s < spawnInterval s then spawnTimer s else 0)"
  by (simp add: maybeSpawn_def Let_def)

lemma update_spawnTimer:
  "spawnTimer (update rnd dt s)
     = (if spawnTimer s + dt < spawnInterval s then spawnTimer s + dt else 0)"
proof -
  let ?s2 = "simulate rnd dt s"
  let ?s3 = "reconcileVisuals rnd (clusterToFitBudget ?s2) ?s2"
  from update_as_spawn [of rnd dt s] obtain spr where
    u: "update rnd dt s = (updateSingleSprites (maybeSpawn rnd ?s3))\<lparr>sprites := spr\<rparr>" by blast
  have "reconciled (clusterToFitBudget ?s2) ?s2 ?s3" by (rule reconcileVisuals_reconciled)
  then have "spawnTimer ?s3 = spawnTimer s + dt" "spawnInterval ?s3 = spawnInterval s"
    by (simp_all add: reconciled_def)
  then show ?thesis by (simp add: u maybeSpawn_spawnTimer)
qed

lemma Particle_update_active:
  assumes "p_active p"
  shows "p_x (fst (Particle_update rnd i dt p)) = p_x p + p_vx p * dt"
    and "p_y (fst (Particle_update rnd i dt p)) = p_y p + p_vy p * dt"
    and "p_life (fst (Particle_update rnd i dt p)) = p_life p - dt"
    and "p_active (fst (Particle_update rnd i dt p)) = (\<not> p_life p - dt \<le> 0)"
  using assms by (simp_all add: Particle_update_def Let_def)

lemma update_heap:
  assumes "wellFormed s" "p \<in> set (particles s)"
  shows "\<exists>i. physical (heap (update rnd dt s) p)
              = physical (fst (Particle_update rnd i dt (heap s p)))"
proof -
  let ?s2 = "simulate rnd dt s"
  let ?s3 = "reconcileVisuals rnd (clusterToFitBudget ?s2) ?s2"
  let ?s4 = "maybeSpawn rnd ?s3"
  from update_as_spawn [of rnd dt s] obtain spr where
    u: "update rnd dt s = (updateSingleSprites ?s4)\<lparr>sprites := spr\<rparr>" by blast
  from assms have d: "distinct (particles s)" and lt: "p < nextId s"
    by (simp_all add: wellFormed_def)
  from simulate_heap [OF d assms(2), of rnd dt] obtain i where
    h2: "heap ?s2 p = fst (Particle_update rnd i dt (heap s p))" by blast
  have r: "reconciled (clusterToFitBudget ?s2) ?s2 ?s3" by (rule reconcileVisuals_reconciled)
  then have h3: "physical (heap ?s3 p) = physical (heap ?s2 p)" and n3: "nextId ?s3 = nextId s"
    by (simp_all add: reconciled_def)
  from lt n3 have "p \<noteq> nextId ?s3" by simp
  with maybeSpawn_cases [of ?s3 rnd] have "heap ?s4 p = heap ?s3 p"
    by (auto simp: spawned_def notSpawned_def)
  with h3 h2 have "physical (heap (update rnd dt s) p)
              = physical (fst (Particle_update rnd i dt (heap s p)))"
    by (simp add: u)
  then show ?thesis ..
qed

lemma update_motion:
  assumes "wellFormed s" "p \<in> set (particles s)" "p_active (heap s p)"
  shows "p_x (heap (update rnd dt s) p) = p_x (heap s p) + p_vx (heap s p) * dt
         \<and> p_y (heap (update rnd dt s) p) = p_y (heap s p) + p_vy (heap s p) * dt
         \<and> p_life (heap (update rnd dt s) p) = p_life (heap s p) - dt"
proof -
  from update_heap [OF assms(1,2), of rnd dt] obtain i where
    "physical (heap (update rnd dt s) p) = physical (fst (Particle_update rnd i dt (heap s p)))"
    by blast
  from physical_fields [OF this] Particle_update_active [OF assms(3), of rnd i dt]
  show ?thesis by simp
qed

lemma wellFormed_update:
  assumes "wellFormed s"
  shows "wellFormed (update rnd dt s)"
proof -
  let ?s2 = "simulate rnd dt s"
  let ?s3 = "reconcileVisuals rnd (clusterToFitBudget ?s2) ?s2"
  let ?s4 = "maybeSpawn rnd ?s3"
  from update_as_spawn [of rnd dt s] obtain spr where
    u: "update rnd dt s = (updateSingleSprites ?s4)\<lparr>sprites := spr\<rparr>" by blast
  from assms have d: "distinct (particles s)" and lt: "\<forall>p \<in> set (particles s). p < nextId s"
    by (simp_all add: wellFormed_def)
  have p2: "particles ?s2 = filter (\<lambda>p. p_active (heap ?s2 p)) (particles s)"
    by (rule simulate_particles)
  have d2: "distinct (particles ?s2)" using d by (subst p2) simp
  have lt2: "\<forall>p \<in> set (particles ?s2). p < nextId s" using lt by (subst p2) simp
  have "reconciled (clusterToFitBudget ?s2) ?s2 ?s3" by (rule reconcileVisuals_reconciled)
  then have p3: "particles ?s3 = particles ?s2" and n3: "nextId ?s3 = nextId s"
    by (simp_all add: reconciled_def)
  have "distinct (particles ?s4) \<and> (\<forall>p \<in> set (particles ?s4). p < nextId ?s4)"
  proof -
    from maybeSpawn_cases [of ?s3 rnd] show ?thesis
    proof
      assume "spawned ?s3 ?s4"
      then have p4: "particles ?s4 = particles ?s3 @ [nextId ?s3]"
        and n4: "nextId ?s4 = nextId ?s3 + 1"
        by (simp_all add: spawned_def)
      have "nextId ?s3 \<notin> set (particles ?s3)" using lt2 by (auto simp: p3 n3)
      with d2 have "distinct (particles ?s4)" by (simp add: p4 p3)
      moreover have "\<forall>p \<in> set (particles ?s4). p < nextId ?s4"
        using lt2 by (auto simp: p4 n4 p3 n3)
      ultimately show ?thesis by simp
    next
      assume "notSpawned ?s3 ?s4"
      then have "particles ?s4 = particles ?s3" "nextId ?s4 = nextId ?s3"
        by (simp_all add: notSpawned_def)
      with d2 lt2 show ?thesis by (simp add: p3 n3)
    qed
  qed
  then show ?thesis by (simp add: wellFormed_def u)
qed

lemma reachable_wellFormed: "reachable rnd opts s \<Longrightarrow> wellFormed s"
proof (induction rule: reachable.induct)
  case (fresh hp spr nid nsp r)
  show ?case by (simp add: wellFormed_def newSystem_def)
next
  case (frame s dt)
  from frame.IH show ?case by (rule wellFormed_update)
qed

lemma exampleSystem_fields [simp]:
  "particles (exampleSystem hp ps) = ps"
  "heap (exampleSystem hp ps) = hp"
  "nextId (exampleSystem hp ps) = Suc (length ps)"
  "groups (exampleSystem hp ps) = []"
  "singleSprites (exampleSystem hp ps) = []"
  "spawnTimer (exampleSystem hp ps) = 0"
  "spawnInterval (exampleSystem hp ps) = 0.15"
  "maxSprites (exampleSystem hp ps) = 10"
  "emitterHeight (exampleSystem hp ps) = 100"
  "baseMergeDistance (exampleSystem hp ps) = 5"
  by (simp_all add: exampleSystem_def newSystem_def exampleOptions_def)

text \<open>
  C9 (amended): \<^verbatim>\<open>update\<close> with a negative time step returns normally but is not a
  no-op. The spawn timer is advanced by \<open>dt\<close> (and reset to 0 when it still reaches the
  spawn interval), and every active particle of the system is integrated with the
  negative step: its position moves by velocity times \<open>dt\<close> and its life grows by
  \<open>- dt\<close>.
\<close>

theorem negative_dt_integrates:
  assumes "dt < 0" "reachable rnd opts s"
  shows "spawnTimer (update rnd dt s)
           = (if spawnTimer s + dt < spawnInterval s then spawnTimer s + dt else 0)
         \<and> (\<forall>p \<in> set (particles s). p_active (heap s p) \<longrightarrow>
               p_x (heap (update rnd dt s) p) = p_x (heap s p) + p_vx (heap s p) * dt
               \<and> p_y (heap (update rnd dt s) p) = p_y (heap s p) + p_vy (heap s p) * dt
               \<and> p_life (heap (update rnd dt s) p) = p_life (heap s p) - dt)"
  using update_spawnTimer [of rnd dt s] update_motion [OF reachable_wellFormed [OF assms(2)]]
  by blast

text \<open>
  C9 (as stated): a negative time step leaves the spawn timer, the positions and the
  lives unchanged. It does not: with \<open>dt = - 1\<close> the timer of the example goes from 0
  to \<open>- 1\<close>, the particle moves from \<open>x = 50\<close> to \<open>x = 48\<close> and its life grows from
  2 to 3.
\<close>

theorem negative_dt_counterexample:
  "spawnTimer (update (\<lambda>i. 1 / 2) (- 1) (exampleSystem (\<lambda>p. drifting) [1])) = - 1
   \<and> spawnTimer (exampleSystem (\<lambda>p. drifting) [1]) = 0
   \<and> p_x (heap (update (\<lambda>i. 1 / 2) (- 1) (exampleSystem (\<lambda>p. drifting) [1])) 1) = 48
   \<and> p_x (heap (exampleSystem (\<lambda>p. drifting) [1]) 1) = 50
   \<and> p_life (heap (update (\<lambda>i. 1 / 2) (- 1) (exampleSystem (\<lambda>p. drifting) [1])) 1) = 3
   \<and> p_life (heap (exampleSystem (\<lambda>p. drifting) [1]) 1) = 2"
proof -
  let ?s = "exampleSystem (\<lambda>p. drifting) [1]"
  have w: "wellFormed ?s" by (simp add: wellFormed_def)
  have a: "p_active (heap ?s 1)" by (simp add: drifting_def)
  have m: "1 \<in> set (particles ?s)" by simp
  from update_motion [OF w m a, of "\<lambda>i. 1 / 2" "- 1"] update_spawnTimer [of "\<lambda>i. 1 / 2" "- 1" ?s]
  show ?thesis by (simp add: drifting_def)
qed

lemmas frame_eval = update_def beforeGroupSprites_def simulate_def cullDeadParticles_def
  clusterToFitBudget_def reconcileVisuals_def resetMerged_def maybeSpawn_def
  getVisualSpriteCount_def spawnOne_def updateSingleSprites_def updateGroupSprites_def
  updateGroupSprites_log_def newSystem_def exampleOptions_def Let_def

lemma firstFrame:
  "particles (update halves 1 freshExample) = [1]"
  "p_active (heap (update halves 1 freshExample) 1)"
  "spawnTimer (update halves 1 freshExample) = 0"
  "spawnInterval (update halves 1 freshExample) = 0.15"
  "visualCount (update halves 1 freshExample) = 1"
  by (simp_all add: freshExample_def frame_eval newParticle_def pickSingle_def addChild_def
      updateSingle_def newSprite_def visualCount_def visibleSingles_def attachedGroups_def)

lemma pairSimulated:
  "particles (simulate halves (1 / 10) pairExample) = [1, 2]"
  "p_x (heap (simulate halves (1 / 10) pairExample) (Suc 0)) = 10"
  "p_y (heap (simulate halves (1 / 10) pairExample) (Suc 0)) = 44"
  "p_x (heap (simulate halves (1 / 10) pairExample) 2) = 13"
  "p_y (heap (simulate halves (1 / 10) pairExample) 2) = 44"
  "p_active (heap (simulate halves (1 / 10) pairExample) (Suc 0))"
  "p_active (heap (simulate halves (1 / 10) pairExample) 2)"
  "emitterHeight (simulate halves (1 / 10) pairExample) = 100"
  "baseMergeDistance (simulate halves (1 / 10) pairExample) = 5"
  "maxSprites (simulate halves (1 / 10) pairExample) = 10"
  by (simp_all add: pairExample_def simulate_def Let_def cullDeadParticles_def cullAt_def
      updateParticle_def Particle_update_def heapOf_def still_def halves_def)

lemma pairFields:
  "emitterHeight pairExample = 100" "baseMergeDistance pairExample = 5"
  "maxSprites pairExample = 10" "groups pairExample = []"
  by (simp_all add: pairExample_def)

lemma pairActives:
  "filter (\<lambda>p. p_active (heap (simulate halves (1 / 10) pairExample) p))
     (particles (simulate halves (1 / 10) pairExample)) = [1, 2]"
  by (simp add: pairSimulated)

lemma pairAt1:
  "clusterParticles 100 (heap (simulate halves (1 / 10) pairExample)) [1, 2] (5 * 1) = [[1, 2]]"
  by (simp add: pairSimulated
      clusterParticles_def buildBuckets_def addToBucket_def keyOf_def seedStep_def
      scan_def candidates_def admit_def pairFar_def cohesionFar_def scaleAtY_def COHESION_def Let_def)

lemma clusterToFitBudget_first:
  assumes "filter (\<lambda>p. p_active (heap s p)) (particles s) = a" "a \<noteq> []"
    "real (length (clusterAt s a 1)) \<le> maxSprites s"
  shows "clusterToFitBudget s = clusterAt s a 1"
  using assms by (simp add: clusterToFitBudget_def multipliers_def Let_def)

lemma pairClusters:
  "clusterToFitBudget (simulate halves (1 / 10) pairExample) = [[1, 2]]"
proof -
  let ?s = "simulate halves (1 / 10) pairExample"
  have c: "clusterAt ?s [1, 2] 1 = [[1, 2]]"
    unfolding clusterAt_def pairSimulated by (rule pairAt1)
  have "real (length (clusterAt ?s [1, 2] 1)) \<le> maxSprites ?s"
    unfolding c pairSimulated by simp
  from clusterToFitBudget_first [OF pairActives _ this] c show ?thesis by simp
qed

text \<open>
  C1 (as stated): the number of visible draw primitives never exceeds the budget
  \<open>max\<close>, whatever number \<open>max\<close> is. The constructor takes \<open>max\<close> unchecked, and
  \<^verbatim>\<open>maybeSpawn\<close> admits a particle while the count is below it: with \<open>max = 1/2\<close> the
  first \<^verbatim>\<open>update(1)\<close> of a fresh system spawns a particle, and one visible sprite
  exceeds the budget.
\<close>

theorem visual_budget_counterexample:
  "reachable halves halfOptions (update halves 1 halfExample)
   \<and> o_max halfOptions = 1 / 2
   \<and> visualCount (update halves 1 halfExample) = 1
   \<and> \<not> real (visualCount (update halves 1 halfExample)) \<le> o_max halfOptions"
proof -
  have r: "reachable halves halfOptions (update halves 1 halfExample)"
    unfolding halfExample_def by (rule reachable.frame [OF reachable.fresh])
  have m: "o_max halfOptions = 1 / 2" by (simp add: halfOptions_def)
  have v: "visualCount (update halves 1 halfExample) = 1"
    by (simp add: halfExample_def halfOptions_def frame_eval newParticle_def pickSingle_def
        addChild_def updateSingle_def newSprite_def visualCount_def visibleSingles_def
        attachedGroups_def)
  from r m v show ?thesis by simp
qed

theorem visual_budget_witness:
  "visualCount (update halves 1 freshExample) \<le> 10
   \<and> visualCount (update halves 1 freshExample) = 1"
proof -
  have r: "reachable halves exampleOptions (update halves 1 freshExample)"
    unfolding freshExample_def by (rule reachable.frame [OF reachable.fresh])
  have m: "o_max exampleOptions = real 10" by (simp add: exampleOptions_def)
  from visual_budget [OF r m] firstFrame(5) show ?thesis by simp
qed

theorem negative_dt_integrates_witness:
  "spawnTimer (update halves (- 1) (update halves 1 freshExample)) = - 1
   \<and> p_life (heap (update halves (- 1) (update halves 1 freshExample)) 1)
       = p_life (heap (update halves 1 freshExample) 1) + 1"
proof -
  have r: "reachable halves exampleOptions (update halves 1 freshExample)"
    unfolding freshExample_def by (rule reachable.frame [OF reachable.fresh])
  have n: "(- 1 :: real) < 0" by simp
  have m: "1 \<in> set (particles (update halves 1 freshExample))" by (simp add: firstFrame)
  from negative_dt_integrates [OF n r] m firstFrame(2)
  have "spawnTimer (update halves (- 1) (update halves 1 freshExample))
          = (if spawnTimer (update halves 1 freshExample) + - 1
                  < spawnInterval (update halves 1 freshExample)
             then spawnTimer (update halves 1 freshExample) + - 1 else 0)"
    and "p_life (heap (update halves (- 1) (update halves 1 freshExample)) 1)
          = p_life (heap (update halves 1 freshExample) 1) - - 1"
    by blast+
  then show ?thesis by (simp add: firstFrame)
qed

theorem groups_alive_after_update_witness:
  "list_all (\<lambda>kg. list_all (\<lambda>p. p_active (heap (update halves (1 / 10) pairExample) p))
               (g_particles (snd kg)))
     (groups (update halves (1 / 10) pairExample))
   \<and> snd (updateGroupSprites_log (beforeGroupSprites halves (1 / 10) pairExample)) = []"
  by (rule groups_alive_after_update)

subsection \<open>The sprites of the groups across a frame\<close>

lemma map_of_shape: "map_of (shape gs) k = map_option g_sprite (map_of gs k)"
  by (induction gs) (auto simp: shape_def)

lemma shape_lookup:
  assumes "shape gs = shape gs0"
  shows "map_option g_sprite (map_of gs k) = map_option g_sprite (map_of gs0 k)"
  using map_of_shape [of gs k] map_of_shape [of gs0 k] assms by simp

lemma shape_update:
  "map_of gs k = Some g \<Longrightarrow> g_sprite g' = g_sprite g \<Longrightarrow> shape (AList.update k g' gs) = shape gs"
  by (induction gs) (auto simp: shape_def)

lemma update_fresh: "k \<notin> fst ` set al \<Longrightarrow> AList.update k v al = al @ [(k, v)]"
  by (induction al) auto

lemma handles_distinct_keys:
  assumes "distinct (handles gs)" "map_of gs k = Some g" "map_of gs k' = Some g'" "k \<noteq> k'"
  shows "g_sprite g \<noteq> g_sprite g'"
proof -
  from assms(2,3) have m: "(k, g) \<in> set gs" "(k', g') \<in> set gs" by (auto dest: map_of_SomeD)
  from assms(1) have "inj_on (g_sprite \<circ> snd) (set gs)"
    by (simp add: handles_def distinct_map)
  from inj_onD [OF this _ m] assms(4) show ?thesis by auto
qed

lemma markMerged_parent [simp]:
  "s_parent (sprites (markMerged p s) h) = s_parent (sprites s h)"
  by (simp add: markMerged_def split: option.splits)

lemma fold_markMerged_parent [simp]:
  "s_parent (sprites (fold markMerged ps s) h) = s_parent (sprites s h)"
  by (induction ps arbitrary: s) simp_all

lemma madeFor_new:
  assumes "map_of (groups s) (keyFor c) = None"
  shows "nextSprite (fst (madeFor rnd c s a)) = nextSprite s + 1"
    and "groups (fst (madeFor rnd c s a)) = groups s"
    and "g_sprite (snd (madeFor rnd c s a)) = nextSprite s"
    and "s_parent (sprites (fst (madeFor rnd c s a)) h)
           = (h = nextSprite s \<or> s_parent (sprites s h))"
  using assms by (simp_all add: madeFor_def Let_def addChild_def newSprite_def)

lemma madeFor_old:
  assumes "map_of (groups s) (keyFor c) = Some g"
  shows "nextSprite (fst (madeFor rnd c s a)) = nextSprite s"
    and "groups (fst (madeFor rnd c s a)) = AList.update (keyFor c) (snd (madeFor rnd c s a)) (groups s)"
    and "g_sprite (snd (madeFor rnd c s a)) = g_sprite g"
    and "sprites (fst (madeFor rnd c s a)) = sprites s"
  using assms by (simp_all add: madeFor_def Let_def)

lemma loopInv_entry:
  assumes "loopInv s0 dn st" "kg \<in> set (snd st)"
  shows "case map_of (groups s0) (fst kg) of
              Some g0 \<Rightarrow> g_sprite (snd kg) = g_sprite g0
            | None \<Rightarrow> nextSprite s0 \<le> g_sprite (snd kg)
                      \<and> g_sprite (snd kg) < nextSprite (fst st)
                      \<and> s_parent (sprites (fst st) (g_sprite (snd kg)))"
  using assms unfolding loopInv_def by blast

lemma reconcileComp_loopInv:
  assumes inv: "loopInv s0 dn st"
    and dh: "distinct (handles (groups s0))"
    and lt: "\<forall>kg \<in> set (groups s0). g_sprite (snd kg) < nextSprite s0"
    and fr: "big c \<longrightarrow> keyFor c \<notin> set (map keyFor (filter big dn))"
  shows "loopInv s0 (dn @ [c]) (reconcileComp rnd c st)"
proof (cases "big c")
  case False
  then have "reconcileComp rnd c st = st" by (simp add: reconcileComp_skip big_def)
  with False inv show ?thesis by (simp add: loopInv_def)
next
  case True
  let ?s = "fst st" and ?nxt = "snd st" and ?k = "keyFor c"
  from True have "1 < length c" by (simp add: big_def)
  from reconcileComp_big [OF this, of st rnd] obtain anchor where
    eq: "reconcileComp rnd c st =
           (fold markMerged c (fst (madeFor rnd c ?s anchor)),
            AList.update ?k (snd (madeFor rnd c ?s anchor)) ?nxt)"
    by blast
  let ?m = "madeFor rnd c ?s anchor"
  from inv have i1: "nextSprite s0 \<le> nextSprite ?s"
    and i2: "shape (groups ?s) = shape (groups s0)"
    and i3: "map fst ?nxt = map keyFor (filter big dn)"
    and i4: "map (g_particles \<circ> snd) ?nxt = filter big dn"
    and i6: "\<forall>h < nextSprite s0. s_parent (sprites ?s h) = s_parent (sprites s0 h)"
    and i7: "distinct (handles ?nxt)"
    unfolding loopInv_def by blast+
  from fr True i3 have "?k \<notin> set (map fst ?nxt)" by simp
  then have kn: "?k \<notin> fst ` set ?nxt" by simp
  from update_fresh [OF kn] have up: "AList.update ?k (snd ?m) ?nxt = ?nxt @ [(?k, snd ?m)]" .
  have old_lt: "g_sprite g0 < nextSprite s0" if "map_of (groups s0) k = Some g0" for k g0
    using lt map_of_SomeD [OF that] by force
  show ?thesis
  proof (cases "map_of (groups ?s) ?k")
    case None
    with shape_lookup [OF i2, of ?k] have n0: "map_of (groups s0) ?k = None" by simp
    note mf = madeFor_new [OF None, of rnd anchor]
    have e: "\<forall>kg \<in> set (?nxt @ [(?k, snd ?m)]).
            case map_of (groups s0) (fst kg) of
              Some g0 \<Rightarrow> g_sprite (snd kg) = g_sprite g0
            | None \<Rightarrow> nextSprite s0 \<le> g_sprite (snd kg)
                      \<and> g_sprite (snd kg) < nextSprite (fold markMerged c (fst ?m))
                      \<and> s_parent (sprites (fold markMerged c (fst ?m)) (g_sprite (snd kg)))"
    proof
      fix kg assume "kg \<in> set (?nxt @ [(?k, snd ?m)])"
      then consider "kg \<in> set ?nxt" | "kg = (?k, snd ?m)" by auto
      then show "case map_of (groups s0) (fst kg) of
              Some g0 \<Rightarrow> g_sprite (snd kg) = g_sprite g0
            | None \<Rightarrow> nextSprite s0 \<le> g_sprite (snd kg)
                      \<and> g_sprite (snd kg) < nextSprite (fold markMerged c (fst ?m))
                      \<and> s_parent (sprites (fold markMerged c (fst ?m)) (g_sprite (snd kg)))"
      proof cases
        case 1
        from loopInv_entry [OF inv 1] show ?thesis
          by (auto simp: mf split: option.splits)
      next
        case 2
        with n0 i1 show ?thesis by (simp add: mf)
      qed
    qed
    have h6: "\<forall>h < nextSprite s0. s_parent (sprites (fold markMerged c (fst ?m)) h)
                = s_parent (sprites s0 h)"
      using i6 i1 by (auto simp: mf)
    have "nextSprite ?s \<notin> set (handles ?nxt)"
    proof
      assume "nextSprite ?s \<in> set (handles ?nxt)"
      then obtain kg where kg: "kg \<in> set ?nxt" "g_sprite (snd kg) = nextSprite ?s"
        by (auto simp: handles_def)
      show False
      proof (cases "map_of (groups s0) (fst kg)")
        case None
        with loopInv_entry [OF inv kg(1)] kg(2) show False by simp
      next
        case (Some g1)
        with loopInv_entry [OF inv kg(1)] have "g_sprite (snd kg) = g_sprite g1" by simp
        with old_lt [OF Some] kg(2) i1 show False by simp
      qed
    qed
    with i7 have d: "distinct (handles (?nxt @ [(?k, snd ?m)]))"
      by (simp add: handles_def mf)
    have f1: "nextSprite s0 \<le> nextSprite (fold markMerged c (fst ?m))"
      using i1 by (simp add: mf)
    have f2: "shape (groups (fold markMerged c (fst ?m))) = shape (groups s0)"
      using i2 by (simp add: mf)
    have f3: "map fst (?nxt @ [(?k, snd ?m)]) = map keyFor (filter big (dn @ [c]))"
      using i3 True by simp
    have f4: "map (g_particles \<circ> snd) (?nxt @ [(?k, snd ?m)]) = filter big (dn @ [c])"
      using i4 True by simp
    show ?thesis
      unfolding loopInv_def eq up fst_conv snd_conv
      by (intro conjI f1 f2 f3 f4 e h6 d)
  next
    case (Some g)
    with shape_lookup [OF i2, of ?k]
    have "map_option g_sprite (map_of (groups s0) ?k) = Some (g_sprite g)" by simp
    then obtain g0 where
      g0: "map_of (groups s0) ?k = Some g0" "g_sprite g0 = g_sprite g"
      by (cases "map_of (groups s0) ?k") auto
    note mf = madeFor_old [OF Some, of rnd anchor]
    have sh: "shape (groups (fst ?m)) = shape (groups s0)"
      using shape_update [OF Some mf(3)] i2 by (simp add: mf(2))
    have e: "\<forall>kg \<in> set (?nxt @ [(?k, snd ?m)]).
            case map_of (groups s0) (fst kg) of
              Some g0 \<Rightarrow> g_sprite (snd kg) = g_sprite g0
            | None \<Rightarrow> nextSprite s0 \<le> g_sprite (snd kg)
                      \<and> g_sprite (snd kg) < nextSprite (fold markMerged c (fst ?m))
                      \<and> s_parent (sprites (fold markMerged c (fst ?m)) (g_sprite (snd kg)))"
    proof
      fix kg assume "kg \<in> set (?nxt @ [(?k, snd ?m)])"
      then consider "kg \<in> set ?nxt" | "kg = (?k, snd ?m)" by auto
      then show "case map_of (groups s0) (fst kg) of
              Some g0 \<Rightarrow> g_sprite (snd kg) = g_sprite g0
            | None \<Rightarrow> nextSprite s0 \<le> g_sprite (snd kg)
                      \<and> g_sprite (snd kg) < nextSprite (fold markMerged c (fst ?m))
                      \<and> s_parent (sprites (fold markMerged c (fst ?m)) (g_sprite (snd kg)))"
      proof cases
        case 1
        from loopInv_entry [OF inv 1] show ?thesis
          by (auto simp: mf split: option.splits)
      next
        case 2
        with g0 show ?thesis by (simp add: mf)
      qed
    qed
    have h6: "\<forall>h < nextSprite s0. s_parent (sprites (fold markMerged c (fst ?m)) h)
                = s_parent (sprites s0 h)"
      using i6 by (simp add: mf)
    have "g_sprite g \<notin> set (handles ?nxt)"
    proof
      assume "g_sprite g \<in> set (handles ?nxt)"
      then obtain kg where kg: "kg \<in> set ?nxt" "g_sprite (snd kg) = g_sprite g"
        by (auto simp: handles_def)
      from kg(1) have "fst kg \<in> fst ` set ?nxt" by (rule imageI)
      with kn have ne: "fst kg \<noteq> ?k" by metis
      show False
      proof (cases "map_of (groups s0) (fst kg)")
        case None
        with loopInv_entry [OF inv kg(1)] have "nextSprite s0 \<le> g_sprite (snd kg)" by simp
        with old_lt [OF g0(1)] g0(2) kg(2) show False by simp
      next
        case (Some g1)
        with loopInv_entry [OF inv kg(1)] have "g_sprite (snd kg) = g_sprite g1" by simp
        with handles_distinct_keys [OF dh Some g0(1) ne] g0(2) kg(2) show False by simp
      qed
    qed
    with i7 have d: "distinct (handles (?nxt @ [(?k, snd ?m)]))"
      by (simp add: handles_def mf)
    have f1: "nextSprite s0 \<le> nextSprite (fold markMerged c (fst ?m))"
      using i1 by (simp add: mf)
    have f2: "shape (groups (fold markMerged c (fst ?m))) = shape (groups s0)"
      using sh by simp
    have f3: "map fst (?nxt @ [(?k, snd ?m)]) = map keyFor (filter big (dn @ [c]))"
      using i3 True by simp
    have f4: "map (g_particles \<circ> snd) (?nxt @ [(?k, snd ?m)]) = filter big (dn @ [c])"
      using i4 True by simp
    show ?thesis
      unfolding loopInv_def eq up fst_conv snd_conv
      by (intro conjI f1 f2 f3 f4 e h6 d)
  qed
qed

lemma fold_reconcileComp_loopInv:
  assumes "loopInv s0 dn st"
    and "distinct (handles (groups s0))"
    and "\<forall>kg \<in> set (groups s0). g_sprite (snd kg) < nextSprite s0"
    and "distinct (map keyFor (filter big (dn @ cs)))"
  shows "loopInv s0 (dn @ cs) (fold (reconcileComp rnd) cs st)"
  using assms(1,4)
proof (induction cs arbitrary: dn st)
  case Nil
  then show ?case by simp
next
  case (Cons c cs)
  from Cons.prems(2) have "big c \<longrightarrow> keyFor c \<notin> set (map keyFor (filter big dn))" by auto
  from reconcileComp_loopInv [OF Cons.prems(1) assms(2,3) this]
  have 1: "loopInv s0 (dn @ [c]) (reconcileComp rnd c st)" .
  from Cons.prems(2) have 2: "distinct (map keyFor (filter big ((dn @ [c]) @ cs)))" by simp
  from Cons.IH [OF 1 2] show ?case by simp
qed

lemma dropStale_parent:
  "s_parent (dropStale nxt kg spr h)
     = (s_parent (spr h) \<and> \<not> (g_sprite (snd kg) = h \<and> map_of nxt (fst kg) = None))"
  by (auto simp: dropStale_def removeChild_def)

lemma fold_dropStale_parent:
  "s_parent (fold (dropStale nxt) gs spr h)
     = (s_parent (spr h)
        \<and> \<not> (\<exists>kh \<in> set (shape gs). snd kh = h \<and> map_of nxt (fst kh) = None))"
proof (induction gs arbitrary: spr)
  case Nil
  then show ?case by (simp add: shape_def)
next
  case (Cons g gs)
  have "shape (g # gs) = (fst g, g_sprite (snd g)) # shape gs" by (simp add: shape_def)
  then show ?case by (auto simp: Cons.IH dropStale_parent)
qed

lemma showSingle_parent [simp]:
  "s_parent (sprites (showSingle p s) h) = s_parent (sprites s h)"
  by (simp add: showSingle_def split: option.splits)

lemma fold_showSingle_parent [simp]:
  "s_parent (sprites (fold showSingle ps s) h) = s_parent (sprites s h)"
  by (induction ps arbitrary: s) simp_all

lemma loopInv_start: "loopInv (resetMerged s) [] (resetMerged s, [])"
  by (simp add: loopInv_def handles_def)

lemma shape_set: "set (shape gs) = (\<lambda>kg. (fst kg, g_sprite (snd kg))) ` set gs"
  by (simp add: shape_def)

lemma reconcileVisuals_regrouped:
  assumes dk: "distinct (map fst (groups s))" and dh: "distinct (handles (groups s))"
    and lt: "\<forall>kg \<in> set (groups s). g_sprite (snd kg) < nextSprite s"
    and dc: "distinct (map keyFor (filter big cs))"
  shows "regrouped cs s (reconcileVisuals rnd cs s)"
proof -
  let ?s0 = "resetMerged s"
  let ?st = "fold (reconcileComp rnd) cs (?s0, [])"
  let ?s2 = "fst ?st" and ?nxt = "snd ?st"
  let ?s' = "reconcileVisuals rnd cs s"
  have g0: "groups ?s0 = groups s" "nextSprite ?s0 = nextSprite s" "sprites ?s0 = sprites s"
    by simp_all
  have "loopInv ?s0 ([] @ cs) ?st"
    by (rule fold_reconcileComp_loopInv [OF loopInv_start]) (simp_all add: dh lt dc)
  then have inv: "loopInv ?s0 cs ?st" by simp
  from inv have i1: "nextSprite s \<le> nextSprite ?s2"
    and i2: "shape (groups ?s2) = shape (groups s)"
    and i3: "map fst ?nxt = map keyFor (filter big cs)"
    and i4: "map (g_particles \<circ> snd) ?nxt = filter big cs"
    and i6: "\<forall>h < nextSprite s. s_parent (sprites ?s2 h) = s_parent (sprites s h)"
    and i7: "distinct (handles ?nxt)"
    unfolding loopInv_def g0 by blast+
  have eq: "?s' = fold showSingle (particles ?s2)
        (?s2\<lparr>sprites := fold (dropStale ?nxt) (groups ?s2) (sprites ?s2), groups := ?nxt\<rparr>)"
    by (simp add: reconcileVisuals_def Let_def)
  have gr: "groups ?s' = ?nxt" and ns: "nextSprite ?s' = nextSprite ?s2" by (simp_all add: eq)
  have par: "s_parent (sprites ?s' h)
     = (s_parent (sprites ?s2 h)
        \<and> \<not> (\<exists>kg \<in> set (groups s). g_sprite (snd kg) = h \<and> map_of ?nxt (fst kg) = None))" for h
    by (simp add: eq fold_dropStale_parent i2 shape_set)
  have old_lt: "g_sprite g < nextSprite s" if "map_of (groups s) k = Some g" for k g
    using lt map_of_SomeD [OF that] by force
  have e: "\<forall>kg \<in> set ?nxt.
            case map_of (groups s) (fst kg) of
              Some g0 \<Rightarrow> g_sprite (snd kg) = g_sprite g0
                         \<and> s_parent (sprites ?s' (g_sprite g0)) = s_parent (sprites s (g_sprite g0))
            | None \<Rightarrow> nextSprite s \<le> g_sprite (snd kg) \<and> g_sprite (snd kg) < nextSprite ?s2
                      \<and> s_parent (sprites ?s' (g_sprite (snd kg)))"
  proof
    fix kg assume kg: "kg \<in> set ?nxt"
    from loopInv_entry [OF inv kg] have en: "case map_of (groups s) (fst kg) of
              Some g0 \<Rightarrow> g_sprite (snd kg) = g_sprite g0
            | None \<Rightarrow> nextSprite s \<le> g_sprite (snd kg)
                      \<and> g_sprite (snd kg) < nextSprite ?s2
                      \<and> s_parent (sprites ?s2 (g_sprite (snd kg)))"
      by (simp add: g0 split: option.splits)
    from kg have inn: "map_of ?nxt (fst kg) \<noteq> None"
      by (metis fst_conv image_eqI map_of_eq_None_iff prod.collapse)
    show "case map_of (groups s) (fst kg) of
              Some g0 \<Rightarrow> g_sprite (snd kg) = g_sprite g0
                         \<and> s_parent (sprites ?s' (g_sprite g0)) = s_parent (sprites s (g_sprite g0))
            | None \<Rightarrow> nextSprite s \<le> g_sprite (snd kg) \<and> g_sprite (snd kg) < nextSprite ?s2
                      \<and> s_parent (sprites ?s' (g_sprite (snd kg)))"
    proof (cases "map_of (groups s) (fst kg)")
      case None
      with en have a: "nextSprite s \<le> g_sprite (snd kg)" "g_sprite (snd kg) < nextSprite ?s2"
        "s_parent (sprites ?s2 (g_sprite (snd kg)))" by simp_all
      have "\<not> (\<exists>kg' \<in> set (groups s). g_sprite (snd kg') = g_sprite (snd kg)
                  \<and> map_of ?nxt (fst kg') = None)"
        using lt a(1) by force
      with a None show ?thesis by (simp add: par)
    next
      case (Some g1)
      with en have h: "g_sprite (snd kg) = g_sprite g1" by simp
      have "\<not> (\<exists>kg' \<in> set (groups s). g_sprite (snd kg') = g_sprite g1
                  \<and> map_of ?nxt (fst kg') = None)"
      proof
        assume "\<exists>kg' \<in> set (groups s). g_sprite (snd kg') = g_sprite g1
                  \<and> map_of ?nxt (fst kg') = None"
        then obtain kg' where k': "kg' \<in> set (groups s)" "g_sprite (snd kg') = g_sprite g1"
          "map_of ?nxt (fst kg') = None" by blast
        from k'(1) dk have m': "map_of (groups s) (fst kg') = Some (snd kg')" by simp
        have "fst kg' = fst kg"
        proof (rule ccontr)
          assume "fst kg' \<noteq> fst kg"
          from handles_distinct_keys [OF dh m' Some this] k'(2) show False by simp
        qed
        with k'(3) inn show False by simp
      qed
      moreover have "s_parent (sprites ?s2 (g_sprite g1)) = s_parent (sprites s (g_sprite g1))"
        using i6 old_lt [OF Some] by simp
      ultimately show ?thesis using Some h by (simp add: par)
    qed
  qed
  have st: "\<forall>kg \<in> set (groups s). map_of ?nxt (fst kg) = None
            \<longrightarrow> \<not> s_parent (sprites ?s' (g_sprite (snd kg)))"
    by (auto simp: par)
  have ot: "\<forall>h < nextSprite s. h \<notin> set (handles (groups s))
            \<longrightarrow> s_parent (sprites ?s' h) = s_parent (sprites s h)"
    using i6 by (auto simp: par handles_def)
  show ?thesis
    unfolding regrouped_def gr ns
    by (intro conjI i3 i4 i7 i1 e st ot)
qed

subsection \<open>The sprites through the other steps of a frame\<close>

lemma set_delete_subset: "set (AList.delete k al) \<subseteq> set al"
  by (induction al) auto

lemma cullAt_single: "set (singleSprites (cullAt i s)) \<subseteq> set (singleSprites s)"
proof (cases "i < length (particles s) \<and> \<not> p_active (heap s (particles s ! i))")
  case True
  then have "singleSprites (cullAt i s) = AList.delete (particles s ! i) (singleSprites s)"
    by (simp add: cullAt_def Let_def)
  then show ?thesis by (simp only: set_delete_subset)
next
  case False
  then have "cullAt i s = s" by (auto simp: cullAt_def Let_def)
  then show ?thesis by simp
qed

lemma cullAt_sprite_other:
  assumes "h \<notin> snd ` set (singleSprites s)"
  shows "sprites (cullAt i s) h = sprites s h"
proof (cases "i < length (particles s) \<and> \<not> p_active (heap s (particles s ! i))")
  case False
  then have "cullAt i s = s" by (auto simp: cullAt_def Let_def)
  then show ?thesis by simp
next
  case True
  let ?p = "particles s ! i"
  show ?thesis
  proof (cases "map_of (singleSprites s) ?p")
    case None
    with True show ?thesis by (simp add: cullAt_def Let_def)
  next
    case (Some h')
    from map_of_SomeD [OF this] have "h' \<in> snd ` set (singleSprites s)" by force
    with assms have "h \<noteq> h'" by blast
    with True Some show ?thesis by (simp add: cullAt_def Let_def removeChild_def)
  qed
qed

lemma cullLoop_single: "set (singleSprites (cullLoop i s)) \<subseteq> set (singleSprites s)"
proof (induction i arbitrary: s)
  case 0
  then show ?case by simp
next
  case (Suc i)
  have "set (singleSprites (cullLoop i (cullAt i s))) \<subseteq> set (singleSprites (cullAt i s))"
    by (rule Suc.IH)
  also have "\<dots> \<subseteq> set (singleSprites s)" by (rule cullAt_single)
  finally show ?case by simp
qed

lemma cullLoop_sprite_other:
  assumes "h \<notin> snd ` set (singleSprites s)"
  shows "sprites (cullLoop i s) h = sprites s h"
  using assms
proof (induction i arbitrary: s)
  case 0
  then show ?case by simp
next
  case (Suc i)
  from cullAt_single [of i s] Suc.prems have "h \<notin> snd ` set (singleSprites (cullAt i s))"
    by blast
  from Suc.IH [OF this] cullAt_sprite_other [OF Suc.prems, of i] show ?case by simp
qed

lemma simulate_single: "set (singleSprites (simulate rnd dt s)) \<subseteq> set (singleSprites s)"
proof -
  let ?s1 = "fold (updateParticle rnd dt) (particles s) (s\<lparr>spawnTimer := spawnTimer s + dt\<rparr>)"
  have "singleSprites ?s1 = singleSprites s" by simp
  with cullLoop_single [of "length (particles ?s1)" ?s1] show ?thesis
    by (simp add: simulate_def Let_def cullDeadParticles_def)
qed

lemma simulate_sprite_other:
  assumes "h \<notin> snd ` set (singleSprites s)"
  shows "sprites (simulate rnd dt s) h = sprites s h"
proof -
  let ?s1 = "fold (updateParticle rnd dt) (particles s) (s\<lparr>spawnTimer := spawnTimer s + dt\<rparr>)"
  have 1: "singleSprites ?s1 = singleSprites s" and 2: "sprites ?s1 = sprites s" by simp_all
  from assms 1 have "h \<notin> snd ` set (singleSprites ?s1)" by simp
  from cullLoop_sprite_other [OF this, of "length (particles ?s1)"] 2 show ?thesis
    by (simp add: simulate_def Let_def cullDeadParticles_def)
qed

lemma maybeSpawn_sprites:
  "nextSprite s \<le> nextSprite (maybeSpawn rnd s)
   \<and> (\<forall>h < nextSprite s. sprites (maybeSpawn rnd s) h = sprites s h)
   \<and> (\<forall>ph \<in> set (singleSprites (maybeSpawn rnd s)).
         ph \<in> set (singleSprites s)
         \<or> (snd ph = nextSprite s \<and> nextSprite s < nextSprite (maybeSpawn rnd s)))"
proof (cases "spawnTimer s < spawnInterval s")
  case True
  then show ?thesis by (simp add: maybeSpawn_def)
next
  case False
  show ?thesis
  proof (cases "real (getVisualSpriteCount s) < maxSprites s")
    case nf: False
    with False show ?thesis by (simp add: maybeSpawn_def Let_def)
  next
    case True
    have ns: "nextSprite (maybeSpawn rnd s) = nextSprite s + 1"
      using False True by (simp add: maybeSpawn_def Let_def spawnOne_def)
    have sp: "\<forall>h < nextSprite s. sprites (maybeSpawn rnd s) h = sprites s h"
      using False True by (simp add: maybeSpawn_def Let_def spawnOne_def addChild_def)
    have "singleSprites (maybeSpawn rnd s)
            = AList.update (nextId s) (nextSprite s) (singleSprites s)"
      using False True by (simp add: maybeSpawn_def Let_def spawnOne_def)
    with set_update_subset [of "nextId s" "nextSprite s" "singleSprites s"]
    have "\<forall>ph \<in> set (singleSprites (maybeSpawn rnd s)).
            ph \<in> set (singleSprites s) \<or> snd ph = nextSprite s"
      by auto
    with ns sp show ?thesis by simp
  qed
qed

lemma updateSingle_parent: "s_parent (updateSingle H hp ph spr h) = s_parent (spr h)"
  by (simp add: updateSingle_def Let_def)

lemma fold_updateSingle_parent:
  "s_parent (fold (updateSingle H hp) al spr h) = s_parent (spr h)"
  by (induction al arbitrary: spr) (simp_all add: updateSingle_parent)

lemma updateSingleSprites_parent [simp]:
  "s_parent (sprites (updateSingleSprites s) h) = s_parent (sprites s h)"
  by (simp add: updateSingleSprites_def fold_updateSingle_parent)

lemma updateGroup_alive_parent:
  assumes "groupAlive (heap (fst st)) (snd kg)"
  shows "\<exists>spr. updateGroup kg st = ((fst st)\<lparr>sprites := spr\<rparr>, snd st)
               \<and> (\<forall>h. s_parent (spr h) = s_parent (sprites (fst st) h))"
proof -
  from assms have a: "p_active (heap (fst st) (g_anchor (snd kg)))"
    and m: "list_all (\<lambda>p. p_active (heap (fst st) p)) (g_particles (snd kg))"
    and ne: "g_particles (snd kg) \<noteq> []"
    by (simp_all add: groupAlive_def)
  from m have "filter (\<lambda>p. p_active (heap (fst st) p)) (g_particles (snd kg)) = g_particles (snd kg)"
    by (simp add: list_all_iff)
  with ne have n: "length (filter (\<lambda>p. p_active (heap (fst st) p)) (g_particles (snd kg))) \<noteq> 0"
    by simp
  let ?spr = "sprites (fst (updateGroup kg st))"
  have 1: "updateGroup kg st = ((fst st)\<lparr>sprites := ?spr\<rparr>, snd st)"
    unfolding updateGroup_def Let_def using a n by (simp only: simp_thms if_False if_True) simp
  have 2: "\<forall>h. s_parent (?spr h) = s_parent (sprites (fst st) h)"
    unfolding updateGroup_def Let_def using a n by (simp only: simp_thms if_False if_True) simp
  from 1 2 show ?thesis by blast
qed

lemma fold_updateGroup_alive_parent:
  assumes "\<forall>kg \<in> set gs. groupAlive (heap (fst st)) (snd kg)"
  shows "\<exists>spr. fold updateGroup gs st = ((fst st)\<lparr>sprites := spr\<rparr>, snd st)
               \<and> (\<forall>h. s_parent (spr h) = s_parent (sprites (fst st) h))"
  using assms
proof (induction gs arbitrary: st)
  case Nil
  have "st = ((fst st)\<lparr>sprites := sprites (fst st)\<rparr>, snd st)" by simp
  then show ?case by (simp only: fold_Nil id_apply) blast
next
  case (Cons g gs)
  from Cons.prems have "groupAlive (heap (fst st)) (snd g)" by simp
  from updateGroup_alive_parent [OF this] obtain spr where
    u: "updateGroup g st = ((fst st)\<lparr>sprites := spr\<rparr>, snd st)"
    and p: "\<forall>h. s_parent (spr h) = s_parent (sprites (fst st) h)" by blast
  have "\<forall>kg \<in> set gs. groupAlive (heap (fst (updateGroup g st))) (snd kg)"
    using Cons.prems by (simp add: u)
  from Cons.IH [OF this] obtain spr' where
    f: "fold updateGroup gs (updateGroup g st)
          = ((fst (updateGroup g st))\<lparr>sprites := spr'\<rparr>, snd (updateGroup g st))"
    and p': "\<forall>h. s_parent (spr' h) = s_parent (sprites (fst (updateGroup g st)) h)"
    by blast
  from f have "fold updateGroup (g # gs) st = ((fst st)\<lparr>sprites := spr'\<rparr>, snd st)"
    by (simp add: u)
  moreover from p p' have "\<forall>h. s_parent (spr' h) = s_parent (sprites (fst st) h)"
    by (simp add: u)
  ultimately show ?case by blast
qed

lemma update_after_spawn:
  "\<exists>spr. update rnd dt s
     = (updateSingleSprites (maybeSpawn rnd
          (reconcileVisuals rnd (clusterToFitBudget (simulate rnd dt s)) (simulate rnd dt s))))
       \<lparr>sprites := spr\<rparr>
     \<and> (\<forall>h. s_parent (spr h)
            = s_parent (sprites (maybeSpawn rnd
                (reconcileVisuals rnd (clusterToFitBudget (simulate rnd dt s)) (simulate rnd dt s))) h))"
proof -
  let ?s4 = "maybeSpawn rnd
                (reconcileVisuals rnd (clusterToFitBudget (simulate rnd dt s)) (simulate rnd dt s))"
  let ?b = "beforeGroupSprites rnd dt s"
  have b: "?b = updateSingleSprites ?s4" by (simp add: beforeGroupSprites_def Let_def)
  from fold_updateGroup_alive_parent [of "groups ?b" "(?b, [])"] beforeGroupSprites_alive [of rnd dt s]
  obtain spr where l: "fold updateGroup (groups ?b) (?b, []) = (?b\<lparr>sprites := spr\<rparr>, [])"
    and p: "\<forall>h. s_parent (spr h) = s_parent (sprites ?b h)"
    by auto
  from l have u: "update rnd dt s = (updateSingleSprites ?s4)\<lparr>sprites := spr\<rparr>"
    by (simp add: update_def updateGroupSprites_def updateGroupSprites_log_def b)
  from p have "\<forall>h. s_parent (spr h) = s_parent (sprites ?s4 h)"
    by (simp add: b updateSingleSprites_parent)
  with u show ?thesis by blast
qed

subsection \<open>Keys and member sets\<close>

lemma keyFor_eq_iff:
  assumes "distinct c" "distinct c'"
  shows "keyFor c = keyFor c' \<longleftrightarrow> set c = set c'"
proof
  assume "keyFor c = keyFor c'"
  then have "set (sort c) = set (sort c')" by (simp add: keyFor_def)
  then show "set c = set c'" by simp
next
  assume e: "set c = set c'"
  have "sort c = sort c'"
    by (rule sorted_distinct_set_unique) (simp_all add: assms e)
  then show "keyFor c = keyFor c'" by (simp add: keyFor_def)
qed

lemma keyFor_distinct:
  assumes "distinct (concat cs)" "[] \<notin> set cs"
  shows "distinct (map keyFor cs)"
  using assms
proof (induction cs)
  case Nil
  then show ?case by simp
next
  case (Cons c cs)
  have "keyFor c \<notin> keyFor ` set cs"
  proof
    assume "keyFor c \<in> keyFor ` set cs"
    then obtain c' where c': "c' \<in> set cs" "keyFor c = keyFor c'" by auto
    then have "set (sort c) = set (sort c')" by (simp add: keyFor_def)
    then have e: "set c = set c'" by simp
    from Cons.prems(2) obtain x where "x \<in> set c" by (cases c) auto
    with e c'(1) Cons.prems(1) show False by auto
  qed
  with Cons show ?case by simp
qed

lemma clusters_keys:
  "distinct (map keyFor (filter big (clusterToFitBudget s)))
   \<and> (\<forall>c \<in> set (clusterToFitBudget s). distinct c)"
proof -
  from clusterToFitBudget_partition [of s]
  have d: "distinct (concat (clusterToFitBudget s))" and n: "[] \<notin> set (clusterToFitBudget s)"
    by blast+
  from keyFor_distinct [OF d n] have "distinct (map keyFor (filter big (clusterToFitBudget s)))"
    by (rule distinct_map_filter)
  moreover have "\<forall>c \<in> set (clusterToFitBudget s). distinct c"
    using d by (auto simp: distinct_concat_iff)
  ultimately show ?thesis by blast
qed

lemma keyed_groups:
  assumes "map fst gs = map keyFor cs" "map (g_particles \<circ> snd) gs = cs" "kg \<in> set gs"
  shows "fst kg = keyFor (g_particles (snd kg)) \<and> g_particles (snd kg) \<in> set cs"
proof -
  have "map keyFor cs = map keyFor (map (g_particles \<circ> snd) gs)" by (simp only: assms(2))
  with assms(1) have "map fst gs = map (keyFor \<circ> (g_particles \<circ> snd)) gs"
    by (simp only: map_map)
  then have "\<forall>x \<in> set gs. fst x = (keyFor \<circ> (g_particles \<circ> snd)) x"
    by (simp only: map_eq_conv)
  with assms(3) have "fst kg = keyFor (g_particles (snd kg))" by simp
  moreover from assms(2,3) have "g_particles (snd kg) \<in> set cs" by force
  ultimately show ?thesis by blast
qed

lemma map_of_member:
  "distinct (map fst al) \<Longrightarrow> kv \<in> set al \<Longrightarrow> map_of al (fst kv) = Some (snd kv)"
  by simp

lemma map_of_None_member: "map_of al k = None \<Longrightarrow> kv \<in> set al \<Longrightarrow> fst kv \<noteq> k"
  by (metis fst_conv image_eqI map_of_eq_None_iff prod.collapse)

lemma frame_groups:
  fixes rnd :: "nat \<Rightarrow> real" and dt :: real and s :: system
  assumes wf: "groupsWf s"
  defines "s2 \<equiv> simulate rnd dt s"
  defines "cs \<equiv> clusterToFitBudget (simulate rnd dt s)"
  defines "s3 \<equiv> reconcileVisuals rnd (clusterToFitBudget (simulate rnd dt s)) (simulate rnd dt s)"
  defines "s' \<equiv> update rnd dt s"
  shows "regrouped cs s2 s3"
    and "groups s2 = groups s" and "nextSprite s2 = nextSprite s"
    and "\<forall>kg \<in> set (groups s). sprites s2 (g_sprite (snd kg)) = sprites s (g_sprite (snd kg))"
    and "groups s' = groups s3" and "nextSprite s3 \<le> nextSprite s'"
    and "\<forall>h < nextSprite s3. s_parent (sprites s' h) = s_parent (sprites s3 h)"
    and "\<forall>ph \<in> set (singleSprites s').
           (ph \<in> set (singleSprites s) \<and> snd ph < nextSprite s)
           \<or> (snd ph = nextSprite s3 \<and> nextSprite s3 < nextSprite s')"
proof -
  let ?s4 = "maybeSpawn rnd s3"
  from wf have dk: "distinct (map fst (groups s))" and dh: "distinct (handles (groups s))"
    and lt: "\<forall>kg \<in> set (groups s). g_sprite (snd kg) < nextSprite s"
    and sg: "\<forall>ph \<in> set (singleSprites s).
            snd ph < nextSprite s \<and> snd ph \<notin> set (handles (groups s))"
    unfolding groupsWf_def by blast+
  show g2: "groups s2 = groups s" and n2: "nextSprite s2 = nextSprite s"
    by (simp_all add: s2_def)
  from clusters_keys [of "simulate rnd dt s"]
  have dc: "distinct (map keyFor (filter big cs))" by (simp add: cs_def)
  have "regrouped cs s2 (reconcileVisuals rnd cs s2)"
    by (rule reconcileVisuals_regrouped) (simp_all add: g2 n2 dk dh lt dc)
  then show "regrouped cs s2 s3" by (simp add: s3_def cs_def s2_def)
  show "\<forall>kg \<in> set (groups s). sprites s2 (g_sprite (snd kg)) = sprites s (g_sprite (snd kg))"
  proof
    fix kg assume kg: "kg \<in> set (groups s)"
    then have "g_sprite (snd kg) \<in> set (handles (groups s))" by (simp add: handles_def)
    with sg have "g_sprite (snd kg) \<notin> snd ` set (singleSprites s)" by auto
    from simulate_sprite_other [OF this] show "sprites s2 (g_sprite (snd kg)) = sprites s (g_sprite (snd kg))"
      by (simp add: s2_def)
  qed
  from update_after_spawn [of rnd dt s] obtain spr where
    u: "s' = (updateSingleSprites ?s4)\<lparr>sprites := spr\<rparr>"
    and p: "\<forall>h. s_parent (spr h) = s_parent (sprites ?s4 h)"
    by (auto simp: s'_def s3_def)
  show "groups s' = groups s3" by (simp add: u)
  have n': "nextSprite s' = nextSprite ?s4" by (simp add: u)
  from maybeSpawn_sprites [of s3 rnd] have m1: "nextSprite s3 \<le> nextSprite ?s4"
    and m2: "\<forall>h < nextSprite s3. sprites ?s4 h = sprites s3 h"
    and m3: "\<forall>ph \<in> set (singleSprites ?s4).
         ph \<in> set (singleSprites s3) \<or> (snd ph = nextSprite s3 \<and> nextSprite s3 < nextSprite ?s4)"
    by blast+
  from m1 show "nextSprite s3 \<le> nextSprite s'" by (simp add: n')
  from m2 p show "\<forall>h < nextSprite s3. s_parent (sprites s' h) = s_parent (sprites s3 h)"
    by (simp add: u)
  have "reconciled cs s2 s3" unfolding s3_def cs_def s2_def by (rule reconcileVisuals_reconciled)
  then have "singleSprites s3 = singleSprites s2" by (simp add: reconciled_def)
  with simulate_single [of rnd dt s] have "set (singleSprites s3) \<subseteq> set (singleSprites s)"
    by (simp add: s2_def)
  then have old: "ph \<in> set (singleSprites s) \<and> snd ph < nextSprite s"
    if "ph \<in> set (singleSprites s3)" for ph
    using that sg by blast
  have ss: "singleSprites s' = singleSprites ?s4" by (simp add: u)
  show "\<forall>ph \<in> set (singleSprites s').
           (ph \<in> set (singleSprites s) \<and> snd ph < nextSprite s)
           \<or> (snd ph = nextSprite s3 \<and> nextSprite s3 < nextSprite s')"
    unfolding ss n' using m3 old by blast
qed

lemma regrouped_entry:
  assumes "regrouped cs s s'" "kg \<in> set (groups s')"
  shows "case map_of (groups s) (fst kg) of
              Some g0 \<Rightarrow> g_sprite (snd kg) = g_sprite g0
                         \<and> s_parent (sprites s' (g_sprite g0)) = s_parent (sprites s (g_sprite g0))
            | None \<Rightarrow> nextSprite s \<le> g_sprite (snd kg) \<and> g_sprite (snd kg) < nextSprite s'
                      \<and> s_parent (sprites s' (g_sprite (snd kg)))"
  using assms unfolding regrouped_def by blast

lemma update_handles:
  fixes rnd :: "nat \<Rightarrow> real" and dt :: real and s :: system
  assumes wf: "groupsWf s"
  shows "map (g_particles \<circ> snd) (groups (update rnd dt s))
           = filter big (clusterToFitBudget (simulate rnd dt s))"
    and "\<forall>kg \<in> set (groups s). \<forall>kg' \<in> set (groups (update rnd dt s)).
           sameMembers kg kg' \<longrightarrow>
             g_sprite (snd kg') = g_sprite (snd kg)
             \<and> s_parent (sprites (update rnd dt s) (g_sprite (snd kg)))"
    and "\<forall>kg \<in> set (groups s).
           (\<forall>kg' \<in> set (groups (update rnd dt s)). \<not> sameMembers kg kg') \<longrightarrow>
             \<not> s_parent (sprites (update rnd dt s) (g_sprite (snd kg)))
             \<and> g_sprite (snd kg) \<notin> set (handles (groups (update rnd dt s)))"
    and "\<forall>kg' \<in> set (groups (update rnd dt s)).
           (\<forall>kg \<in> set (groups s). \<not> sameMembers kg kg') \<longrightarrow>
             nextSprite s \<le> g_sprite (snd kg')
             \<and> g_sprite (snd kg') < nextSprite (update rnd dt s)
             \<and> s_parent (sprites (update rnd dt s) (g_sprite (snd kg')))"
    and "groupsWf (update rnd dt s)"
proof -
  let ?s2 = "simulate rnd dt s"
  let ?cs = "clusterToFitBudget (simulate rnd dt s)"
  let ?s3 = "reconcileVisuals rnd (clusterToFitBudget (simulate rnd dt s)) (simulate rnd dt s)"
  let ?s' = "update rnd dt s"
  note fg = frame_groups [OF wf, of rnd dt]
  from wf have dk: "distinct (map fst (groups s))" and dh: "distinct (handles (groups s))"
    and lt: "\<forall>kg \<in> set (groups s). g_sprite (snd kg) < nextSprite s"
    and ky: "\<forall>kg \<in> set (groups s). fst kg = keyFor (g_particles (snd kg))"
    and dp: "\<forall>kg \<in> set (groups s). distinct (g_particles (snd kg))"
    and at: "\<forall>kg \<in> set (groups s). s_parent (sprites s (g_sprite (snd kg)))"
    and sg: "\<forall>ph \<in> set (singleSprites s).
            snd ph < nextSprite s \<and> snd ph \<notin> set (handles (groups s))"
    unfolding groupsWf_def by blast+
  from fg(1) have r1: "map fst (groups ?s3) = map keyFor (filter big ?cs)"
    and r2: "map (g_particles \<circ> snd) (groups ?s3) = filter big ?cs"
    and r3: "distinct (handles (groups ?s3))"
    and r4: "nextSprite ?s2 \<le> nextSprite ?s3"
    and r6: "\<forall>kg \<in> set (groups ?s2). map_of (groups ?s3) (fst kg) = None
            \<longrightarrow> \<not> s_parent (sprites ?s3 (g_sprite (snd kg)))"
    unfolding regrouped_def by blast+
  note g2 = fg(2) and n2 = fg(3) and sp2 = fg(4) and g' = fg(5) and n' = fg(6) and p' = fg(7)
    and s' = fg(8)
  have n3: "nextSprite s \<le> nextSprite ?s3" using r4 n2 by simp
  from clusters_keys [of ?s2] have dc: "distinct (map keyFor (filter big ?cs))"
    and dcl: "\<forall>c \<in> set ?cs. distinct c" by blast+
  have k3: "fst kg = keyFor (g_particles (snd kg)) \<and> distinct (g_particles (snd kg))"
    if "kg \<in> set (groups ?s3)" for kg
    using keyed_groups [OF r1 r2 that] dcl by auto
  have dk3: "distinct (map fst (groups ?s3))" using dc by (simp only: r1)
  have same_key: "sameMembers kg kg' \<longleftrightarrow> fst kg' = fst kg"
    if "kg \<in> set (groups s)" "kg' \<in> set (groups ?s3)" for kg kg'
  proof -
    from that(1) ky dp have a: "fst kg = keyFor (g_particles (snd kg))"
      "distinct (g_particles (snd kg))" by blast+
    from k3 [OF that(2)] have b: "fst kg' = keyFor (g_particles (snd kg'))"
      "distinct (g_particles (snd kg'))" by blast+
    from keyFor_eq_iff [OF b(2) a(2)] a(1) b(1) show ?thesis
      by (simp add: sameMembers_def)
  qed
  have old_par: "s_parent (sprites ?s2 (g_sprite (snd kg)))" if "kg \<in> set (groups s)" for kg
    using that sp2 at by simp
  have later: "s_parent (sprites ?s' h) = s_parent (sprites ?s3 h)" if "h < nextSprite ?s3" for h
    using that p' by blast
  have entry: "case map_of (groups s) (fst kg) of
              Some g0 \<Rightarrow> g_sprite (snd kg) = g_sprite g0
                         \<and> s_parent (sprites ?s3 (g_sprite g0)) = s_parent (sprites ?s2 (g_sprite g0))
            | None \<Rightarrow> nextSprite s \<le> g_sprite (snd kg) \<and> g_sprite (snd kg) < nextSprite ?s3
                      \<and> s_parent (sprites ?s3 (g_sprite (snd kg)))"
    if "kg \<in> set (groups ?s3)" for kg
    using regrouped_entry [OF fg(1) that] by (simp add: g2 n2 split: option.splits)
  show "map (g_particles \<circ> snd) (groups ?s') = filter big ?cs" by (simp only: g' r2)
  show A: "\<forall>kg \<in> set (groups s). \<forall>kg' \<in> set (groups ?s').
           sameMembers kg kg' \<longrightarrow>
             g_sprite (snd kg') = g_sprite (snd kg)
             \<and> s_parent (sprites ?s' (g_sprite (snd kg)))"
  proof (intro ballI impI)
    fix kg kg' assume kg: "kg \<in> set (groups s)" and kg': "kg' \<in> set (groups ?s')"
      and sm: "sameMembers kg kg'"
    from kg' have k3': "kg' \<in> set (groups ?s3)" by (simp only: g')
    from same_key [OF kg k3'] sm have "fst kg' = fst kg" by simp
    with map_of_member [OF dk kg] have m: "map_of (groups s) (fst kg') = Some (snd kg)" by simp
    from entry [OF k3'] m have h: "g_sprite (snd kg') = g_sprite (snd kg)"
      and q: "s_parent (sprites ?s3 (g_sprite (snd kg))) = s_parent (sprites ?s2 (g_sprite (snd kg)))"
      by simp_all
    from lt kg n3 have "g_sprite (snd kg) < nextSprite ?s3" by force
    from later [OF this] q old_par [OF kg] h
    show "g_sprite (snd kg') = g_sprite (snd kg) \<and> s_parent (sprites ?s' (g_sprite (snd kg)))"
      by simp
  qed
  show "\<forall>kg \<in> set (groups s).
           (\<forall>kg' \<in> set (groups ?s'). \<not> sameMembers kg kg') \<longrightarrow>
             \<not> s_parent (sprites ?s' (g_sprite (snd kg)))
             \<and> g_sprite (snd kg) \<notin> set (handles (groups ?s'))"
  proof (intro ballI impI)
    fix kg assume kg: "kg \<in> set (groups s)"
      and no: "\<forall>kg' \<in> set (groups ?s'). \<not> sameMembers kg kg'"
    have none: "map_of (groups ?s3) (fst kg) = None"
    proof (rule ccontr)
      assume "map_of (groups ?s3) (fst kg) \<noteq> None"
      then obtain g where "map_of (groups ?s3) (fst kg) = Some g" by blast
      from map_of_SomeD [OF this] have m: "(fst kg, g) \<in> set (groups ?s3)" .
      from same_key [OF kg m] have "sameMembers kg (fst kg, g)" by simp
      with no m show False by (simp add: g')
    qed
    from kg have "kg \<in> set (groups ?s2)" by (simp only: g2)
    with r6 none have np: "\<not> s_parent (sprites ?s3 (g_sprite (snd kg)))" by blast
    from lt kg n3 have "g_sprite (snd kg) < nextSprite ?s3" by force
    from later [OF this] np have 1: "\<not> s_parent (sprites ?s' (g_sprite (snd kg)))" by simp
    have 2: "g_sprite (snd kg) \<notin> set (handles (groups ?s'))"
    proof
      assume "g_sprite (snd kg) \<in> set (handles (groups ?s'))"
      then obtain kg' where kg': "kg' \<in> set (groups ?s3)"
        and h: "g_sprite (snd kg') = g_sprite (snd kg)"
        by (auto simp: handles_def g')
      from map_of_None_member [OF none kg'] have ne: "fst kg' \<noteq> fst kg" .
      show False
      proof (cases "map_of (groups s) (fst kg')")
        case None
        with entry [OF kg'] have "nextSprite s \<le> g_sprite (snd kg')" by simp
        with lt kg h show False by force
      next
        case (Some g0)
        with entry [OF kg'] have "g_sprite (snd kg') = g_sprite g0" by simp
        with handles_distinct_keys [OF dh Some map_of_member [OF dk kg] ne] h
        show False by simp
      qed
    qed
    from 1 2 show "\<not> s_parent (sprites ?s' (g_sprite (snd kg)))
             \<and> g_sprite (snd kg) \<notin> set (handles (groups ?s'))" by blast
  qed
  show "\<forall>kg' \<in> set (groups ?s').
           (\<forall>kg \<in> set (groups s). \<not> sameMembers kg kg') \<longrightarrow>
             nextSprite s \<le> g_sprite (snd kg')
             \<and> g_sprite (snd kg') < nextSprite ?s'
             \<and> s_parent (sprites ?s' (g_sprite (snd kg')))"
  proof (intro ballI impI)
    fix kg' assume kg': "kg' \<in> set (groups ?s')"
      and no: "\<forall>kg \<in> set (groups s). \<not> sameMembers kg kg'"
    from kg' have k3': "kg' \<in> set (groups ?s3)" by (simp only: g')
    have none: "map_of (groups s) (fst kg') = None"
    proof (rule ccontr)
      assume "map_of (groups s) (fst kg') \<noteq> None"
      then obtain g where "map_of (groups s) (fst kg') = Some g" by blast
      from map_of_SomeD [OF this] have m: "(fst kg', g) \<in> set (groups s)" .
      from same_key [OF m k3'] have "sameMembers (fst kg', g) kg'" by simp
      with no m show False by blast
    qed
    with entry [OF k3'] have a: "nextSprite s \<le> g_sprite (snd kg')"
      "g_sprite (snd kg') < nextSprite ?s3" "s_parent (sprites ?s3 (g_sprite (snd kg')))"
      by simp_all
    from later [OF a(2)] a n' show "nextSprite s \<le> g_sprite (snd kg')
             \<and> g_sprite (snd kg') < nextSprite ?s'
             \<and> s_parent (sprites ?s' (g_sprite (snd kg')))" by simp
  qed
  show "groupsWf ?s'"
  proof -
    have h3: "g_sprite (snd kg) < nextSprite ?s3 \<and> s_parent (sprites ?s3 (g_sprite (snd kg)))
              \<and> (g_sprite (snd kg) \<in> set (handles (groups s)) \<or> nextSprite s \<le> g_sprite (snd kg))"
      if "kg \<in> set (groups ?s3)" for kg
    proof (cases "map_of (groups s) (fst kg)")
      case None
      with entry [OF that] show ?thesis by simp
    next
      case (Some g0)
      from map_of_SomeD [OF Some] have m: "(fst kg, g0) \<in> set (groups s)" .
      with entry [OF that] Some old_par [OF m] lt n3 show ?thesis
        by (force simp: handles_def)
    qed
    have c: "\<forall>kg \<in> set (groups ?s').
            g_sprite (snd kg) < nextSprite ?s' \<and> fst kg = keyFor (g_particles (snd kg))
            \<and> distinct (g_particles (snd kg)) \<and> s_parent (sprites ?s' (g_sprite (snd kg)))"
    proof
      fix kg assume "kg \<in> set (groups ?s')"
      then have k: "kg \<in> set (groups ?s3)" by (simp only: g')
      from h3 [OF k] later [of "g_sprite (snd kg)"] n' k3 [OF k]
      show "g_sprite (snd kg) < nextSprite ?s' \<and> fst kg = keyFor (g_particles (snd kg))
            \<and> distinct (g_particles (snd kg)) \<and> s_parent (sprites ?s' (g_sprite (snd kg)))"
        by simp
    qed
    have d: "\<forall>ph \<in> set (singleSprites ?s').
            snd ph < nextSprite ?s' \<and> snd ph \<notin> set (handles (groups ?s'))"
    proof
      fix ph assume "ph \<in> set (singleSprites ?s')"
      with s' consider "ph \<in> set (singleSprites s)" "snd ph < nextSprite s"
        | "snd ph = nextSprite ?s3" "nextSprite ?s3 < nextSprite ?s'" by blast
      then show "snd ph < nextSprite ?s' \<and> snd ph \<notin> set (handles (groups ?s'))"
      proof cases
        case 1
        have "snd ph \<notin> set (handles (groups ?s3))"
        proof
          assume "snd ph \<in> set (handles (groups ?s3))"
          then obtain kg where kg: "kg \<in> set (groups ?s3)" "g_sprite (snd kg) = snd ph"
            by (auto simp: handles_def)
          from h3 [OF kg(1)] kg(2) 1 sg show False by force
        qed
        with 1 n3 n' show ?thesis by (simp add: g')
      next
        case 2
        have "snd ph \<notin> set (handles (groups ?s3))"
        proof
          assume "snd ph \<in> set (handles (groups ?s3))"
          then obtain kg where kg: "kg \<in> set (groups ?s3)" "g_sprite (snd kg) = snd ph"
            by (auto simp: handles_def)
          from h3 [OF kg(1)] kg(2) 2 show False by simp
        qed
        with 2 show ?thesis by (simp add: g')
      qed
    qed
    show ?thesis
      unfolding groupsWf_def using dk3 r3 c d by (simp add: g')
  qed
qed

lemma reachable_groupsWf: "reachable rnd opts s \<Longrightarrow> groupsWf s"
proof (induction rule: reachable.induct)
  case (fresh hp spr nid nsp r)
  show ?case by (simp add: groupsWf_def newSystem_def handles_def)
next
  case (frame s dt)
  from frame.IH show ?case by (rule update_handles(5))
qed

lemma trackedPair_wf: "groupsWf (trackedPair hp)"
  by (simp add: groupsWf_def trackedPair_def handles_def keyFor_def newSprite_def)

lemma dyingSimulated:
  "particles (simulate halves (1 / 10) dyingExample) = [1]"
  "p_active (heap (simulate halves (1 / 10) dyingExample) (Suc 0))"
  "groups (simulate halves (1 / 10) dyingExample) = groups dyingExample"
  "nextSprite (simulate halves (1 / 10) dyingExample) = 3"
  by (simp_all add: dyingExample_def trackedPair_def simulate_def Let_def cullDeadParticles_def
      cullAt_def updateParticle_def Particle_update_def heapOf_def still_def halves_def
      removeChild_def)

lemma dyingClusters:
  "clusterToFitBudget (simulate halves (1 / 10) dyingExample) = [[1]]"
  by (simp add: clusterToFitBudget_def dyingSimulated multipliers_def clusterAt_def
      clusterParticles_def buildBuckets_def addToBucket_def keyOf_def seedStep_def
      scan_def candidates_def admit_def pairFar_def cohesionFar_def scaleAtY_def COHESION_def
      Let_def)

lemma dyingFrame:
  "groups (update halves (1 / 10) dyingExample) = []"
  "nextSprite (update halves (1 / 10) dyingExample) = 3"
  "\<not> s_parent (sprites (update halves (1 / 10) dyingExample) 0)"
  "singleSprites (update halves (1 / 10) dyingExample) = [(1, 1)]"
  "s_visible (sprites (update halves (1 / 10) dyingExample) 1)"
  by (simp_all add: dyingExample_def trackedPair_def update_def beforeGroupSprites_def
      simulate_def cullDeadParticles_def cullAt_def updateParticle_def Particle_update_def
      heapOf_def still_def halves_def removeChild_def
      clusterToFitBudget_def multipliers_def clusterAt_def
      clusterParticles_def buildBuckets_def addToBucket_def keyOf_def seedStep_def
      scan_def candidates_def admit_def pairFar_def cohesionFar_def scaleAtY_def COHESION_def
      reconcileVisuals_def resetMerged_def reconcileComp_def dropStale_def showSingle_def
      maybeSpawn_def updateSingleSprites_def updateSingle_def updateGroupSprites_def
      updateGroupSprites_log_def newSprite_def Let_def)

lemma stayingSimulated:
  "particles (simulate halves (1 / 10) stayingExample) = [1, 2]"
  "p_x (heap (simulate halves (1 / 10) stayingExample) (Suc 0)) = 10"
  "p_y (heap (simulate halves (1 / 10) stayingExample) (Suc 0)) = 44"
  "p_x (heap (simulate halves (1 / 10) stayingExample) 2) = 13"
  "p_y (heap (simulate halves (1 / 10) stayingExample) 2) = 44"
  "p_active (heap (simulate halves (1 / 10) stayingExample) (Suc 0))"
  "p_active (heap (simulate halves (1 / 10) stayingExample) 2)"
  "emitterHeight (simulate halves (1 / 10) stayingExample) = 100"
  "baseMergeDistance (simulate halves (1 / 10) stayingExample) = 5"
  "maxSprites (simulate halves (1 / 10) stayingExample) = 10"
  by (simp_all add: stayingExample_def trackedPair_def simulate_def Let_def
      cullDeadParticles_def cullAt_def updateParticle_def Particle_update_def heapOf_def
      still_def halves_def)

lemma stayingAt1:
  "clusterParticles 100 (heap (simulate halves (1 / 10) stayingExample)) [1, 2] (5 * 1)
     = [[1, 2]]"
  by (simp add: stayingSimulated
      clusterParticles_def buildBuckets_def addToBucket_def keyOf_def seedStep_def
      scan_def candidates_def admit_def pairFar_def cohesionFar_def scaleAtY_def COHESION_def
      Let_def)

lemma stayingClusters:
  "clusterToFitBudget (simulate halves (1 / 10) stayingExample) = [[1, 2]]"
proof -
  let ?s = "simulate halves (1 / 10) stayingExample"
  have a: "filter (\<lambda>p. p_active (heap ?s p)) (particles ?s) = [1, 2]"
    by (simp add: stayingSimulated)
  have c: "clusterAt ?s [1, 2] 1 = [[1, 2]]"
    unfolding clusterAt_def stayingSimulated by (rule stayingAt1)
  have "real (length (clusterAt ?s [1, 2] 1)) \<le> maxSprites ?s"
    unfolding c stayingSimulated by simp
  from clusterToFitBudget_first [OF a _ this] c show ?thesis by simp
qed

text \<open>
  C4 (as stated): a cluster of at least two particles whose member-id set is unchanged
  keeps its group sprite, and for a cluster whose membership changed in any way the old
  sprite is destroyed and a new one is created. The second half fails when the change
  leaves fewer than two members. In the example the particles 1 and 2 are tracked as
  the group \<open>1,2\<close> on the sprite 0, and particle 2 dies during the frame: the cluster
  becomes \<open>[1]\<close>, the sprite 0 is removed from the container, no group is left and no
  sprite at all is created in the frame. (A group sprite is destroyed by
  \<^verbatim>\<open>removeChild\<close> and by dropping its group from the map; \<^verbatim>\<open>reconcileVisuals\<close> does
  nothing else to it.)
\<close>

theorem group_handle_counterexample:
  "map (\<lambda>kg. (g_particles (snd kg), g_sprite (snd kg))) (groups dyingExample) = [([1, 2], 0)]
   \<and> s_parent (sprites dyingExample 0)
   \<and> clusterToFitBudget (simulate halves (1 / 10) dyingExample) = [[1]]
   \<and> \<not> s_parent (sprites (update halves (1 / 10) dyingExample) 0)
   \<and> groups (update halves (1 / 10) dyingExample) = []
   \<and> nextSprite (update halves (1 / 10) dyingExample) = nextSprite dyingExample"
proof -
  have "map (\<lambda>kg. (g_particles (snd kg), g_sprite (snd kg))) (groups dyingExample)
          = [([1, 2], 0)]"
    and "s_parent (sprites dyingExample 0)" and "nextSprite dyingExample = 3"
    by (simp_all add: dyingExample_def trackedPair_def)
  with dyingClusters dyingFrame(1,2,3) show ?thesis by simp
qed

text \<open>
  C4 (amended): let the groups tracked before a call of \<^verbatim>\<open>update\<close> be consistent
  (\<open>groupsWf\<close>, which holds in every reachable state, lemma \<open>reachable_groupsWf\<close>). After
  the call the tracked groups are exactly the clusters of this frame with at least two
  members, and
  \<^item> a group after the frame with the member-id set of a group tracked before has the
    sprite handle of that group, still attached: the handle is reused;
  \<^item> the sprite of a group tracked before whose member-id set is that of no group after
    the frame is removed from the container, and no group holds it any more;
  \<^item> a group after the frame whose member-id set is that of no group tracked before
    has a sprite created in this frame, attached.

  So a new handle is created for a changed cluster only when it still has at least two
  members.
\<close>

theorem group_handles_follow_membership:
  assumes "groupsWf s"
  shows "map (g_particles \<circ> snd) (groups (update rnd dt s))
           = filter big (clusterToFitBudget (simulate rnd dt s))
         \<and> (\<forall>kg \<in> set (groups s). \<forall>kg' \<in> set (groups (update rnd dt s)).
               sameMembers kg kg' \<longrightarrow>
                 g_sprite (snd kg') = g_sprite (snd kg)
                 \<and> s_parent (sprites (update rnd dt s) (g_sprite (snd kg))))
         \<and> (\<forall>kg \<in> set (groups s).
               (\<forall>kg' \<in> set (groups (update rnd dt s)). \<not> sameMembers kg kg') \<longrightarrow>
                 \<not> s_parent (sprites (update rnd dt s) (g_sprite (snd kg)))
                 \<and> g_sprite (snd kg) \<notin> set (handles (groups (update rnd dt s))))
         \<and> (\<forall>kg' \<in> set (groups (update rnd dt s)).
               (\<forall>kg \<in> set (groups s). \<not> sameMembers kg kg') \<longrightarrow>
                 nextSprite s \<le> g_sprite (snd kg')
                 \<and> g_sprite (snd kg') < nextSprite (update rnd dt s)
                 \<and> s_parent (sprites (update rnd dt s) (g_sprite (snd kg'))))"
  by (intro conjI update_handles(1-4) [OF assms])

theorem group_handles_follow_membership_witness:
  "groupsWf stayingExample
   \<and> map (\<lambda>kg. (g_particles (snd kg), g_sprite (snd kg))) (groups stayingExample)
       = [([1, 2], 0)]
   \<and> map (\<lambda>kg. (g_particles (snd kg), g_sprite (snd kg)))
         (groups (update halves (1 / 10) stayingExample)) = [([1, 2], 0)]
   \<and> s_parent (sprites (update halves (1 / 10) stayingExample) 0)"
proof -
  let ?s' = "update halves (1 / 10) stayingExample"
  let ?kg = "([1, 2], \<lparr>g_key = [1, 2], g_particles = [1, 2], g_sprite = 0, g_anchor = 1\<rparr>)
               :: gkey \<times> pgroup"
  have wf: "groupsWf stayingExample" unfolding stayingExample_def by (rule trackedPair_wf)
  have g: "groups stayingExample = [?kg]" by (simp add: stayingExample_def trackedPair_def)
  from group_handles_follow_membership [OF wf, of halves "1 / 10"]
  have m: "map (g_particles \<circ> snd) (groups ?s') = filter big [[1, 2]]"
    and r: "\<forall>kg' \<in> set (groups ?s'). sameMembers ?kg kg' \<longrightarrow>
               g_sprite (snd kg') = g_sprite (snd ?kg)
               \<and> s_parent (sprites ?s' (g_sprite (snd ?kg)))"
    by (simp_all add: stayingClusters g)
  from m obtain kg' where k: "groups ?s' = [kg']" and p: "g_particles (snd kg') = [1, 2]"
    by (auto simp: big_def map_eq_Cons_conv)
  from p have "sameMembers ?kg kg'" by (simp add: sameMembers_def)
  with r k have "g_sprite (snd kg') = 0" and "s_parent (sprites ?s' 0)" by simp_all
  with wf g k p show ?thesis by simp
qed

end
